theory Spec2Isabelle
  imports Main "HOL-Library.Word"
begin

section \<open>Python values used by the diagnostic scripts\<close>

text \<open>
  The two scripts \<^verbatim>\<open>search_mystery_hash.py\<close> and \<^verbatim>\<open>test_mystery_hash.py\<close> read one
  segment file as a \<^verbatim>\<open>bytes\<close> object, cut it into 80-byte records and print the
  double SHA-256 of each record. A \<^verbatim>\<open>bytes\<close> object is a list of 8-bit words, a Python
  \<^verbatim>\<open>int\<close> is an \<^typ>\<open>int\<close>, a \<^verbatim>\<open>str\<close> is a \<^typ>\<open>string\<close>.
\<close>

type_synonym byte = "8 word"
type_synonym bytes = "byte list"

text \<open>
  \<^verbatim>\<open>xs[lo:hi]\<close>: a bound below zero counts from the end, and both bounds are clamped
  to the length, so a slice never raises and may be shorter than \<^verbatim>\<open>hi - lo\<close>.
\<close>

definition slice_bound :: "int \<Rightarrow> int \<Rightarrow> nat" where
  "slice_bound i n = (if i < 0 then nat (max 0 (i + n)) else nat (min i n))"

definition py_slice :: "'a list \<Rightarrow> int \<Rightarrow> int \<Rightarrow> 'a list" where
  "py_slice xs lo hi =
     (let n = int (length xs) in drop (slice_bound lo n) (take (slice_bound hi n) xs))"

text \<open>\<^verbatim>\<open>range(a, b)\<close>: the integers from \<^verbatim>\<open>a\<close> up to \<^verbatim>\<open>b - 1\<close>, none when \<^verbatim>\<open>b <= a\<close>.\<close>

definition py_range :: "int \<Rightarrow> int \<Rightarrow> int list" where
  "py_range a b = [a..b - 1]"

text \<open>\<^verbatim>\<open>len(data)\<close>\<close>

definition len :: "'a list \<Rightarrow> int" where
  "len xs = int (length xs)"

text \<open>\<^verbatim>\<open>bytes.hex()\<close>: two lowercase hexadecimal digits for each byte, high nibble first.\<close>

definition hex_digit :: "nat \<Rightarrow> char" where
  "hex_digit d = ''0123456789abcdef'' ! d"

definition hex_byte :: "byte \<Rightarrow> string" where
  "hex_byte b = [hex_digit (unat b div 16), hex_digit (unat b mod 16)]"

definition hex :: "bytes \<Rightarrow> string" where
  "hex bs = concat (map hex_byte bs)"

section \<open>The record layout of a segment file\<close>

text \<open>\<^verbatim>\<open>header_size = 80\<close> (both scripts)\<close>

definition header_size :: int where
  "header_size = 80"

text \<open>\<^verbatim>\<open>num_headers = len(data) // header_size\<close> (search\_mystery\_hash.py, line 19)\<close>

definition num_headers :: "bytes \<Rightarrow> int" where
  "num_headers data = len data div header_size"

text \<open>\<^verbatim>\<open>len(data) % header_size\<close>, the "Leftover bytes" diagnostic (line 64)\<close>

definition leftover_bytes :: "bytes \<Rightarrow> int" where
  "leftover_bytes data = len data mod header_size"

text \<open>
  \<^verbatim>\<open>data[i * header_size:(i + 1) * header_size]\<close>, the slice every loop of both scripts
  takes for the record at index \<^verbatim>\<open>i\<close>.
\<close>

definition header_data :: "bytes \<Rightarrow> int \<Rightarrow> bytes" where
  "header_data data i = py_slice data (i * header_size) ((i + 1) * header_size)"

text \<open>
  The guard of test\_mystery\_hash.py, line 35:
  \<^verbatim>\<open>if i * header_size + header_size <= len(data)\<close>
\<close>

definition test_guard :: "bytes \<Rightarrow> int \<Rightarrow> bool" where
  "test_guard data i \<longleftrightarrow> i * header_size + header_size \<le> len data"

section \<open>Slices and ranges\<close>

lemma py_slice_nonneg:
  assumes "0 \<le> lo"
  shows "py_slice xs lo hi = drop (nat lo) (take (slice_bound hi (int (length xs))) xs)"
proof -
  have "drop (nat (min lo (int (length xs)))) ys = drop (nat lo) ys"
    if "length ys \<le> length xs" for ys :: "'a list"
  proof (cases "lo \<le> int (length xs)")
    case True
    then show ?thesis by (simp add: min_def)
  next
    case False
    with that show ?thesis by (simp add: min_def)
  qed
  with assms show ?thesis
    by (simp add: py_slice_def slice_bound_def Let_def)
qed

lemma py_slice_inside:
  assumes "0 \<le> lo" and "lo \<le> hi" and "hi \<le> int (length xs)"
  shows "py_slice xs lo hi = take (nat (hi - lo)) (drop (nat lo) xs)"
proof -
  from assms have hi: "slice_bound hi (int (length xs)) = nat hi"
    by (simp add: slice_bound_def min_def)
  from assms have "nat hi = nat lo + nat (hi - lo)"
    by simp
  then have "drop (nat lo) (take (nat hi) xs) = take (nat (hi - lo)) (drop (nat lo) xs)"
    by (simp add: drop_take)
  with assms(1) hi show ?thesis
    by (simp add: py_slice_nonneg)
qed

lemma set_py_range [simp]: "set (py_range a b) = {i. a \<le> i \<and> i < b}"
  by (auto simp: py_range_def)

lemma header_data_inside:
  assumes "0 \<le> i" and "i * 80 + 80 \<le> int (length data)"
  shows "header_data data i = take 80 (drop (nat i * 80) data)"
proof -
  from assms have "py_slice data (i * 80) ((i + 1) * 80)
      = take (nat ((i + 1) * 80 - i * 80)) (drop (nat (i * 80)) data)"
    by (intro py_slice_inside) (simp_all add: algebra_simps)
  moreover have "nat ((i + 1) * 80 - i * 80) = 80"
    by (simp add: algebra_simps)
  moreover from assms(1) have "nat (i * 80) = nat i * 80"
    by (simp add: nat_mult_distrib)
  ultimately show ?thesis
    by (simp add: header_data_def header_size_def)
qed

lemma length_header_data_inside:
  assumes "0 \<le> i" and "i * 80 + 80 \<le> int (length data)"
  shows "length (header_data data i) = 80"
proof -
  from assms have "nat i * 80 + 80 \<le> length data"
    by linarith
  with assms show ?thesis
    by (simp add: header_data_inside)
qed

lemma num_headers_bound:
  assumes "i < num_headers data"
  shows "i * 80 + 80 \<le> int (length data)"
proof -
  from assms have "i + 1 \<le> int (length data) div 80"
    by (simp add: num_headers_def len_def header_size_def)
  then have "(i + 1) * 80 \<le> int (length data) div 80 * 80"
    by (simp only: mult_right_mono)
  also have "\<dots> \<le> int (length data)"
    by simp
  finally show ?thesis
    by (simp add: algebra_simps)
qed

section \<open>The double hash\<close>

text \<open>
  \<^verbatim>\<open>hashlib.sha256(x).digest()\<close> is a library function; the scripts are modelled for an
  arbitrary digest function \<open>sha256\<close>, passed as a parameter.

  The hash is computed at four places, each with its own local names. Every place is
  kept as a definition of its own:
  \<^item> search\_mystery\_hash.py, lines 30-32 (first pass over all records);
  \<^item> search\_mystery\_hash.py, lines 41-43 (surrounding headers of a match);
  \<^item> search\_mystery\_hash.py, lines 70-72 (last five headers);
  \<^item> test\_mystery\_hash.py, lines 39-41 (records 1998 to 2002).
\<close>

definition search_hash_hex :: "(bytes \<Rightarrow> bytes) \<Rightarrow> bytes \<Rightarrow> string" where
  "search_hash_hex sha256 h =
     (let hash1 = sha256 h; hash2 = sha256 hash1; hash_hex = hex (rev hash2) in hash_hex)"

definition search_h_hex :: "(bytes \<Rightarrow> bytes) \<Rightarrow> bytes \<Rightarrow> string" where
  "search_h_hex sha256 h_data =
     (let h1 = sha256 h_data; h2 = sha256 h1; h_hex = hex (rev h2) in h_hex)"

definition search_last_hash_hex :: "(bytes \<Rightarrow> bytes) \<Rightarrow> bytes \<Rightarrow> string" where
  "search_last_hash_hex sha256 h =
     (let hash1 = sha256 h; hash2 = sha256 hash1; hash_hex = hex (rev hash2) in hash_hex)"

definition test_hash_hex :: "(bytes \<Rightarrow> bytes) \<Rightarrow> bytes \<Rightarrow> string" where
  "test_hash_hex sha256 h =
     (let hash1 = sha256 h; hash2 = sha256 hash1; hash_hex = hex (rev hash2) in hash_hex)"

text \<open>
  The specification's \<^verbatim>\<open>HeaderCodec.hash\<close>, written from its words: "SHA-256 applied
  twice, result byte-reversed".
\<close>

definition HeaderCodec_hash :: "(bytes \<Rightarrow> bytes) \<Rightarrow> bytes \<Rightarrow> bytes" where
  "HeaderCodec_hash sha256 b = rev (sha256 (sha256 b))"

definition mystery_hash :: string where
  "mystery_hash = ''00000014ae902cd16b2109ee531d006780ad3303af01e7b938e182c30c99f749''"

definition expected_hash :: string where
  "expected_hash = ''0000001e340a0e6fb510d53c2316e8b0f3e27b2e6ee0002a23f228cfec723b06''"

section \<open>Standard output\<close>

text \<open>
  Every \<^verbatim>\<open>print\<close> call adds one item to the standard output. A call whose argument
  has no interpolated value is a \<open>Text\<close>; the others keep the interpolated values, and
  \<open>render\<close> gives the text that is printed (UTF-8, without the newline \<^verbatim>\<open>print\<close>
  adds).
\<close>

datatype out =
    Text string
  | Total_headers int
  | Found_mystery int
  | Height_line int string string
  | Found_expected int
  | File_size int
  | Complete_headers int
  | Leftover int
  | Segment_not_found string
  | Found_segment string
  | Size_on_disk int
  | Expected_size int
  | Mystery_at int

definition nl :: string where
  "nl = [CHR 0x0A]"

text \<open>The three characters outside ASCII that the scripts print, in UTF-8.\<close>

definition direct_hit :: string where
  "direct_hit = [CHR 0xF0, CHR 0x9F, CHR 0x8E, CHR 0xAF]"

definition check_mark :: string where
  "check_mark = [CHR 0xE2, CHR 0x9C, CHR 0x93]"

definition cross_mark :: string where
  "cross_mark = [CHR 0xE2, CHR 0x9D, CHR 0x8C]"

text \<open>\<^verbatim>\<open>str(n)\<close> for an integer, as an f-string formats it.\<close>

fun str_nat :: "nat \<Rightarrow> string" where
  "str_nat n =
     (if n < 10 then [''0123456789'' ! n]
      else str_nat (n div 10) @ [''0123456789'' ! (n mod 10)])"

definition str_int :: "int \<Rightarrow> string" where
  "str_int i = (if i < 0 then ''-'' @ str_nat (nat (- i)) else str_nat (nat i))"

fun render :: "out \<Rightarrow> string" where
  "render (Text s) = s"
| "render (Total_headers n) = ''Total headers in file: '' @ str_int n"
| "render (Found_mystery i) =
     direct_hit @ '' FOUND MYSTERY HASH at height '' @ str_int i @ ''!''"
| "render (Height_line j h marker) = ''  Height '' @ str_int j @ '': '' @ h @ marker"
| "render (Found_expected i) = check_mark @ '' Found expected hash at height '' @ str_int i"
| "render (File_size n) = ''- File size: '' @ str_int n @ '' bytes''"
| "render (Complete_headers n) = ''- Complete headers: '' @ str_int n"
| "render (Leftover n) = ''- Leftover bytes: '' @ str_int n"
| "render (Segment_not_found p) = ''Segment file not found: '' @ p"
| "render (Found_segment p) = ''Found segment file: '' @ p"
| "render (Size_on_disk n) = ''File size: '' @ str_int n @ '' bytes''"
| "render (Expected_size n) = ''Expected size for 2001 headers: '' @ str_int n @ '' bytes''"
| "render (Mystery_at i) = ''    ^^^ FOUND MYSTERY HASH at height '' @ str_int i @ ''!''"

definition rendered :: "out list \<Rightarrow> string" where
  "rendered outs = concat (map (\<lambda>x. render x @ nl) outs)"

lemma render_examples:
  "render (Total_headers 2001) = ''Total headers in file: 2001''"
  "render (Height_line 2000 expected_hash [])
     = ''  Height 2000: 0000001e340a0e6fb510d53c2316e8b0f3e27b2e6ee0002a23f228cfec723b06''"
  "render (Leftover 0) = ''- Leftover bytes: 0''"
  "rendered [Found_mystery 7, Text []]
     = [CHR 0xF0, CHR 0x9F, CHR 0x8E, CHR 0xAF] @ '' FOUND MYSTERY HASH at height 7!''
       @ [CHR 0x0A, CHR 0x0A]"
  by code_simp+

section \<open>Environment and file system\<close>

text \<open>
  A path names a regular file (with whether the process may read it, and its bytes), a
  directory (with the size the system reports for it), or nothing. The world a script
  runs in holds the file system, the file operations performed so far, the standard
  output and the encoding of the standard output.
\<close>

datatype node = File bool bytes | Directory int

datatype fs_op = Op_exists string | Op_getsize string | Op_open string string | Op_read string

datatype error =
    FileNotFoundError string
  | IsADirectoryError string
  | PermissionError string
  | UnicodeEncodeError string
  | UnsupportedOperation string
  | ValueError string

text \<open>
  The encodings of \<^verbatim>\<open>sys.stdout\<close> that are modelled. A text is a string in UTF-8: its
  characters are all in ASCII when no byte reaches \<^verbatim>\<open>0x80\<close>, and all in Latin-1 when no
  byte reaches \<^verbatim>\<open>0xC4\<close> (the lead bytes of the characters up to \<^verbatim>\<open>U+00FF\<close> are \<^verbatim>\<open>0xC2\<close>
  and \<^verbatim>\<open>0xC3\<close>).
\<close>

datatype codec = Utf8 | Latin1 | Ascii

definition encodable :: "codec \<Rightarrow> string \<Rightarrow> bool" where
  "encodable c s =
     (case c of
        Utf8 \<Rightarrow> True
      | Latin1 \<Rightarrow> list_all (\<lambda>ch. (of_char ch :: nat) < 0xC4) s
      | Ascii \<Rightarrow> list_all (\<lambda>ch. (of_char ch :: nat) < 0x80) s)"

record world =
  files :: "string \<rightharpoonup> node"
  ops :: "fs_op list"
  stdout :: "out list"
  encoding :: codec

text \<open>
  \<^verbatim>\<open>print(x)\<close>: the text is encoded before anything is written, so a text that the
  encoding of the standard output cannot encode raises \<^verbatim>\<open>UnicodeEncodeError\<close> and
  nothing of it is printed.
\<close>

definition print :: "out \<Rightarrow> world \<Rightarrow> error option \<times> world" where
  "print x w =
     (if encodable (encoding w) (render x) then (None, w\<lparr>stdout := stdout w @ [x]\<rparr>)
      else (Some (UnicodeEncodeError (render x)), w))"

text \<open>Statements in sequence: an exception ends the script, and what follows is not run.\<close>

definition then_do ::
    "error option \<times> world \<Rightarrow> (world \<Rightarrow> error option \<times> world) \<Rightarrow> error option \<times> world" where
  "then_do r k = (case r of (Some e, w) \<Rightarrow> (Some e, w) | (None, w) \<Rightarrow> k w)"

text \<open>Several \<^verbatim>\<open>print\<close> calls in sequence, with no other effect between them.\<close>

fun prints :: "out list \<Rightarrow> world \<Rightarrow> error option \<times> world" where
  "prints [] w = (None, w)"
| "prints (x # xs) w = then_do (print x w) (prints xs)"

text \<open>\<^verbatim>\<open>os.environ.get(key, default)\<close>\<close>

definition os_environ_get :: "(string \<rightharpoonup> string) \<Rightarrow> string \<Rightarrow> string \<Rightarrow> string" where
  "os_environ_get environ key dflt = (case environ key of None \<Rightarrow> dflt | Some v \<Rightarrow> v)"

text \<open>
  \<^verbatim>\<open>os.path.join(a, b)\<close> of \<^verbatim>\<open>posixpath\<close> (the path below is a macOS one): an absolute
  \<open>b\<close> replaces \<open>a\<close>; otherwise \<open>b\<close> is appended, after a slash unless \<open>a\<close> is empty
  or ends with one.
\<close>

definition os_path_join :: "string \<Rightarrow> string \<Rightarrow> string" where
  "os_path_join a b =
     (if take 1 b = ''/'' then b
      else if a = [] \<or> last a = CHR ''/'' then a @ b
      else a @ ''/'' @ b)"

text \<open>\<^verbatim>\<open>os.path.exists(p)\<close>\<close>

definition os_path_exists :: "string \<Rightarrow> world \<Rightarrow> bool \<times> world" where
  "os_path_exists p w = (files w p \<noteq> None, w\<lparr>ops := ops w @ [Op_exists p]\<rparr>)"


text \<open>
  \<^verbatim>\<open>with open(p, mode) as f: data = f.read()\<close>. Mode \<^verbatim>\<open>'rb'\<close> leaves the file system as
  it is and returns the bytes of a regular file that may be read; a file that may not
  raises \<^verbatim>\<open>PermissionError\<close>. Mode \<^verbatim>\<open>'wb'\<close> creates or truncates the file before
  \<^verbatim>\<open>read\<close> fails (the permission to write is not modelled). The other modes are not
  modelled: no script uses them.
\<close>

definition open_read :: "string \<Rightarrow> string \<Rightarrow> world \<Rightarrow> (error + bytes) \<times> world" where
  "open_read p mode w =
     (let w' = w\<lparr>ops := ops w @ [Op_open p mode]\<rparr> in
      if mode = ''rb'' then
        (case files w p of
           None \<Rightarrow> (Inl (FileNotFoundError p), w')
         | Some (Directory n) \<Rightarrow> (Inl (IsADirectoryError p), w')
         | Some (File readable d) \<Rightarrow>
             if readable then (Inr d, w'\<lparr>ops := ops w' @ [Op_read p]\<rparr>)
             else (Inl (PermissionError p), w'))
      else if mode = ''wb'' then
        (case files w p of
           Some (Directory n) \<Rightarrow> (Inl (IsADirectoryError p), w')
         | Some (File readable d) \<Rightarrow>
             (Inl (UnsupportedOperation ''read''),
              w'\<lparr>files := (files w)(p \<mapsto> File readable [])\<rparr>)
         | None \<Rightarrow>
             (Inl (UnsupportedOperation ''read''),
              w'\<lparr>files := (files w)(p \<mapsto> File True [])\<rparr>))
      else (Inl (ValueError mode), w'))"


definition segment_rel_path :: string where
  "segment_rel_path =
     ''Library/Application Support/Dash-Evo-Tool/spv/dash/headers/segment_0000.dat''"

text \<open>
  Lines 11-12 of search\_mystery\_hash.py and 16-17 of test\_mystery\_hash.py:
  \<^verbatim>\<open>home = os.environ.get('HOME', '.')\<close>,
  \<^verbatim>\<open>segment_path = os.path.join(home, "Library/...")\<close>
\<close>

definition segment_path :: "(string \<rightharpoonup> string) \<Rightarrow> string" where
  "segment_path environ =
     (let home = os_environ_get environ ''HOME'' ''.'' in os_path_join home segment_rel_path)"

section \<open>search\_mystery\_hash.py\<close>

text \<open>
  Lines 39-45, the inner loop over the neighbours of a match at index \<open>i\<close>:
  \<^verbatim>\<open>for j in range(max(0, i-2), min(num_headers, i+3))\<close>
\<close>

definition surrounding :: "(bytes \<Rightarrow> bytes) \<Rightarrow> bytes \<Rightarrow> int \<Rightarrow> int \<Rightarrow> out list" where
  "surrounding sha256 data n i =
     map (\<lambda>j. let h_data = header_data data j;
                  h_hex = search_h_hex sha256 h_data;
                  marker = (if j = i then '' <-- MYSTERY'' else [])
              in Height_line j h_hex marker)
       (py_range (max 0 (i - 2)) (min n (i + 3)))"

text \<open>The variables the first loop assigns, and what it has printed.\<close>

record scan =
  found_mystery :: bool
  found_expected :: bool
  printed :: "out list"

text \<open>Lines 28-50, the body of the first loop at index \<open>i\<close> (\<open>n\<close> is \<^verbatim>\<open>num_headers\<close>).\<close>

definition search_step :: "(bytes \<Rightarrow> bytes) \<Rightarrow> bytes \<Rightarrow> int \<Rightarrow> int \<Rightarrow> scan \<Rightarrow> scan" where
  "search_step sha256 data n i s =
     (let hash_hex = search_hash_hex sha256 (header_data data i);
          s1 = (if hash_hex = mystery_hash
                then s\<lparr>found_mystery := True,
                       printed := printed s
                         @ [Found_mystery i, Text (nl @ ''Surrounding headers:'')]
                         @ surrounding sha256 data n i
                         @ [Text []]\<rparr>
                else s);
          s2 = (if hash_hex = expected_hash
                then s1\<lparr>found_expected := True, printed := printed s1 @ [Found_expected i]\<rparr>
                else s1)
      in s2)"

text \<open>Lines 68-73: \<^verbatim>\<open>for i in range(max(0, num_headers - 5), num_headers)\<close>\<close>

definition last_headers :: "(bytes \<Rightarrow> bytes) \<Rightarrow> bytes \<Rightarrow> int \<Rightarrow> out list" where
  "last_headers sha256 data n =
     map (\<lambda>i. Height_line i (search_last_hash_hex sha256 (header_data data i)) [])
       (py_range (max 0 (n - 5)) n)"

text \<open>Lines 18-73: everything the script prints once the file has been read.\<close>

definition search_report :: "(bytes \<Rightarrow> bytes) \<Rightarrow> bytes \<Rightarrow> out list" where
  "search_report sha256 data =
     (let n = num_headers data;
          s0 = \<lparr>found_mystery = False, found_expected = False,
                printed = [Total_headers n, Text (''Searching for mystery hash...'' @ nl)]\<rparr>;
          s = fold (search_step sha256 data n) (py_range 0 n) s0
      in printed s
         @ (if \<not> found_mystery s
            then [Text (cross_mark @ '' Mystery hash NOT found in the segment file''),
                  Text (''   This suggests it'' @ [CHR 0x27]
                        @ ''s being generated incorrectly, not read from storage'')]
            else [])
         @ (if \<not> found_expected s
            then [Text (cross_mark @ '' Expected hash for height 2000 NOT found''),
                  Text ''   The file may not contain headers up to 2000 yet'']
            else [])
         @ [Text (nl @ ''File analysis:''),
            File_size (len data),
            Complete_headers n,
            Leftover (len data mod header_size),
            Text (nl @ ''Last 5 headers in file:'')]
         @ last_headers sha256 data n)"

text \<open>
  The whole script. The result is the exception that ended it, if any, and the world
  it leaves.
\<close>

definition search_mystery_hash ::
    "(bytes \<Rightarrow> bytes) \<Rightarrow> (string \<rightharpoonup> string) \<Rightarrow> world \<Rightarrow> error option \<times> world" where
  "search_mystery_hash sha256 environ w0 =
     then_do (print (Text ''Searching for Mystery Hash in SPV Storage'') w0) (\<lambda>w1.
     then_do (print (Text (''========================================='' @ nl)) w1) (\<lambda>w2.
       let path = segment_path environ;
           (found, w3) = os_path_exists path w2
       in if found then
            (case open_read path ''rb'' w3 of
               (Inl e, w4) \<Rightarrow> (Some e, w4)
             | (Inr data, w4) \<Rightarrow> prints (search_report sha256 data) w4)
          else print (Segment_not_found path) w3))"

section \<open>test\_mystery\_hash.py\<close>

text \<open>Lines 35-48, the body of the loop at index \<open>i\<close>.\<close>

definition test_step :: "(bytes \<Rightarrow> bytes) \<Rightarrow> bytes \<Rightarrow> int \<Rightarrow> out list" where
  "test_step sha256 data i =
     (if test_guard data i then
        (let hash_hex = test_hash_hex sha256 (header_data data i)
         in [Height_line i hash_hex []]
            @ (if hash_hex = mystery_hash then [Mystery_at i]
               else if hash_hex = expected_hash
               then [Text ''    ^^^ This is the expected hash for height 2000'']
               else []))
      else [])"

text \<open>Lines 33-48: \<^verbatim>\<open>for i in range(1998, 2003)\<close>\<close>

definition test_scan :: "(bytes \<Rightarrow> bytes) \<Rightarrow> bytes \<Rightarrow> out list" where
  "test_scan sha256 data =
     Text (nl @ ''Checking headers around position 2000:'')
     # concat (map (test_step sha256 data) (py_range 1998 2003))"



section \<open>Records of a segment file\<close>

lemma take_drop_concat_fixed:
  assumes "\<forall>r\<in>set rs. length r = k" and "i < length rs"
  shows "take k (drop (i * k) (concat rs @ tl_bytes)) = rs ! i"
  using assms
proof (induction rs arbitrary: i)
  case Nil
  then show ?case by simp
next
  case (Cons r rs)
  show ?case
  proof (cases i)
    case 0
    with Cons.prems show ?thesis by simp
  next
    case (Suc j)
    with Cons.prems have "take k (drop (j * k) (concat rs @ tl_bytes)) = rs ! j"
      by (intro Cons.IH) simp_all
    with Suc Cons.prems show ?thesis by simp
  qed
qed

lemma length_concat_fixed:
  assumes "\<forall>r\<in>set rs. length r = k"
  shows "length (concat rs) = length rs * k"
  using assms by (induction rs) simp_all

lemma header_data_in_file:
  assumes "0 \<le> i" and "i < num_headers data"
  shows "header_data data i = take 80 (drop (nat i * 80) data)"
  using assms by (simp add: header_data_inside num_headers_bound)

lemma length_header_data:
  assumes "0 \<le> i" and "i < num_headers data"
  shows "length (header_data data i) = 80"
  using assms by (simp add: length_header_data_inside num_headers_bound)

lemma test_guard_bound:
  "test_guard data i \<longleftrightarrow> i * 80 + 80 \<le> int (length data)"
  by (simp add: test_guard_def header_size_def len_def)

lemma test_guard_num_headers:
  "test_guard data i \<longleftrightarrow> i < num_headers data"
proof
  assume "test_guard data i"
  then have "(i + 1) * 80 \<le> int (length data)"
    by (simp add: test_guard_bound algebra_simps)
  then have "(i + 1) * 80 div 80 \<le> int (length data) div 80"
    by (rule zdiv_mono1) simp
  then have "i + 1 \<le> int (length data) div 80"
    by simp
  then show "i < num_headers data"
    by (simp add: num_headers_def len_def header_size_def)
next
  assume "i < num_headers data"
  then show "test_guard data i"
    by (simp add: test_guard_bound num_headers_bound)
qed

lemma header_data_ignores_leftover:
  assumes "0 \<le> i" and "i < num_headers data"
  shows "header_data (take (nat (num_headers data * 80)) data) i = header_data data i"
proof -
  let ?n = "num_headers data"
  let ?body = "take (nat (?n * 80)) data"
  from assms(2) have bound: "i * 80 + 80 \<le> int (length data)"
    by (rule num_headers_bound)
  have "?n * 80 \<le> int (length data)"
    by (simp add: num_headers_def len_def header_size_def)
  then have len_body: "int (length ?body) = ?n * 80"
    using assms by simp
  from assms have "(i + 1) * 80 \<le> ?n * 80"
    by simp
  with len_body have bound': "i * 80 + 80 \<le> int (length ?body)"
    by (simp add: algebra_simps)
  from assms(1) bound' have "header_data ?body i = take 80 (drop (nat i * 80) ?body)"
    by (rule header_data_inside)
  also have "\<dots> = take 80 (take (nat (?n * 80) - nat i * 80) (drop (nat i * 80) data))"
    by (simp add: drop_take)
  also have "\<dots> = take 80 (drop (nat i * 80) data)"
  proof -
    from assms \<open>(i + 1) * 80 \<le> ?n * 80\<close> have "80 \<le> nat (?n * 80) - nat i * 80"
      by linarith
    then show ?thesis by (simp add: min_def)
  qed
  also from assms(1) bound have "\<dots> = header_data data i"
    by (simp add: header_data_inside)
  finally show ?thesis .
qed

text \<open>
  C2. A segment file that holds the consecutive 80-byte records \<open>rs\<close> (and nothing
  between them) has record \<open>i\<close> at the bytes from \<open>i * 80\<close> up to \<open>(i + 1) * 80\<close>: the
  slice the scripts take at index \<open>i\<close> starts at byte \<open>i * 80\<close>, is 80 bytes long and
  is the record at height \<open>i\<close>. The file has as many complete records as were written
  and no leftover byte.
\<close>

theorem header_record_layout:
  assumes "\<forall>r\<in>set rs. length r = 80" and "i < length rs"
  shows "header_data (concat rs) (int i) = rs ! i
       \<and> header_data (concat rs) (int i) = take 80 (drop (i * 80) (concat rs))
       \<and> num_headers (concat rs) = int (length rs)
       \<and> leftover_bytes (concat rs) = 0"
proof -
  from assms(1) have len: "length (concat rs) = length rs * 80"
    by (rule length_concat_fixed)
  then have n: "num_headers (concat rs) = int (length rs)"
    by (simp add: num_headers_def len_def header_size_def)
  from len have left: "leftover_bytes (concat rs) = 0"
    by (simp add: leftover_bytes_def len_def header_size_def)
  from assms(2) n have "header_data (concat rs) (int i) = take 80 (drop (nat (int i) * 80) (concat rs))"
    by (intro header_data_in_file) simp_all
  then have range: "header_data (concat rs) (int i) = take 80 (drop (i * 80) (concat rs))"
    by simp
  from assms have "take 80 (drop (i * 80) (concat rs @ [])) = rs ! i"
    by (rule take_drop_concat_fixed)
  with range n left show ?thesis by simp
qed

theorem header_record_layout_witness:
  "header_data (concat [replicate 80 1, replicate 80 2, replicate 80 3]) (int 1) = replicate 80 2
   \<and> num_headers (concat [replicate 80 1, replicate 80 2, replicate 80 (3::byte)]) = 3"
  using header_record_layout [of "[replicate 80 1, replicate 80 2, replicate 80 3]" 1]
  by simp

section \<open>What the loops print\<close>

text \<open>The output of one turn of the first loop of search\_mystery\_hash.py.\<close>

definition step_output :: "(bytes \<Rightarrow> bytes) \<Rightarrow> bytes \<Rightarrow> int \<Rightarrow> int \<Rightarrow> out list" where
  "step_output sha256 data n i =
     printed (search_step sha256 data n i
       \<lparr>found_mystery = False, found_expected = False, printed = []\<rparr>)"

lemma printed_search_step:
  "printed (search_step sha256 data n i s) = printed s @ step_output sha256 data n i"
  by (simp add: search_step_def step_output_def Let_def)

lemma found_mystery_search_step:
  "found_mystery (search_step sha256 data n i s) \<longleftrightarrow>
     found_mystery s \<or> search_hash_hex sha256 (header_data data i) = mystery_hash"
  by (simp add: search_step_def Let_def)

lemma found_expected_search_step:
  "found_expected (search_step sha256 data n i s) \<longleftrightarrow>
     found_expected s \<or> search_hash_hex sha256 (header_data data i) = expected_hash"
  by (simp add: search_step_def Let_def)

lemma printed_search_loop:
  "printed (fold (search_step sha256 data n) js s) =
     printed s @ concat (map (step_output sha256 data n) js)"
  by (induction js arbitrary: s) (simp_all add: printed_search_step)

lemma found_mystery_search_loop:
  "found_mystery (fold (search_step sha256 data n) js s) \<longleftrightarrow>
     found_mystery s \<or> (\<exists>j\<in>set js. search_hash_hex sha256 (header_data data j) = mystery_hash)"
  by (induction js arbitrary: s) (auto simp: found_mystery_search_step)

lemma found_expected_search_loop:
  "found_expected (fold (search_step sha256 data n) js s) \<longleftrightarrow>
     found_expected s \<or> (\<exists>j\<in>set js. search_hash_hex sha256 (header_data data j) = expected_hash)"
  by (induction js arbitrary: s) (auto simp: found_expected_search_step)

lemma Found_mystery_in_step_output:
  "Found_mystery k \<in> set (step_output sha256 data n i) \<longleftrightarrow>
     k = i \<and> search_hash_hex sha256 (header_data data i) = mystery_hash"
  by (auto simp: step_output_def search_step_def surrounding_def Let_def)

lemma Found_expected_in_step_output:
  "Found_expected k \<in> set (step_output sha256 data n i) \<longleftrightarrow>
     k = i \<and> search_hash_hex sha256 (header_data data i) = expected_hash"
  by (auto simp: step_output_def search_step_def surrounding_def Let_def)

lemma set_search_report:
  "set (search_report sha256 data) =
     (\<Union>i\<in>{i. 0 \<le> i \<and> i < num_headers data}. set (step_output sha256 data (num_headers data) i))
     \<union> set (search_report sha256 data) \<inter> - (range Found_mystery \<union> range Found_expected)"
  (is "?lhs = ?loop \<union> ?rest")
proof -
  have "?loop \<subseteq> ?lhs"
    by (auto simp: search_report_def Let_def printed_search_loop)
  moreover have "x \<in> ?loop" if "x \<in> ?lhs" and "x \<in> range Found_mystery \<union> range Found_expected" for x
    using that
    by (auto simp: search_report_def Let_def printed_search_loop last_headers_def
        split: if_splits)
  ultimately show ?thesis by blast
qed

lemma Found_mystery_in_search_report:
  "Found_mystery i \<in> set (search_report sha256 data) \<longleftrightarrow>
     0 \<le> i \<and> i < num_headers data
     \<and> search_hash_hex sha256 (header_data data i) = mystery_hash"
proof -
  have "Found_mystery i \<in> set (search_report sha256 data) \<longleftrightarrow>
      (\<exists>j. 0 \<le> j \<and> j < num_headers data
           \<and> Found_mystery i \<in> set (step_output sha256 data (num_headers data) j))"
    by (subst set_search_report) auto
  then show ?thesis
    by (auto simp: Found_mystery_in_step_output)
qed

lemma Found_expected_in_search_report:
  "Found_expected i \<in> set (search_report sha256 data) \<longleftrightarrow>
     0 \<le> i \<and> i < num_headers data
     \<and> search_hash_hex sha256 (header_data data i) = expected_hash"
proof -
  have "Found_expected i \<in> set (search_report sha256 data) \<longleftrightarrow>
      (\<exists>j. 0 \<le> j \<and> j < num_headers data
           \<and> Found_expected i \<in> set (step_output sha256 data (num_headers data) j))"
    by (subst set_search_report) auto
  then show ?thesis
    by (auto simp: Found_expected_in_step_output)
qed

lemma Mystery_at_in_test_scan:
  "Mystery_at i \<in> set (test_scan sha256 data) \<longleftrightarrow>
     1998 \<le> i \<and> i < 2003 \<and> test_guard data i
     \<and> test_hash_hex sha256 (header_data data i) = mystery_hash"
  by (auto simp: test_scan_def test_step_def test_guard_def Let_def split: if_splits)

lemma Height_line_in_test_scan:
  "Height_line i h m \<in> set (test_scan sha256 data) \<longleftrightarrow>
     1998 \<le> i \<and> i < 2003 \<and> test_guard data i
     \<and> h = test_hash_hex sha256 (header_data data i) \<and> m = []"
  by (auto simp: test_scan_def test_step_def test_guard_def Let_def split: if_splits)

lemma search_report_loop:
  "\<exists>post. search_report sha256 data =
     [Total_headers (num_headers data), Text (''Searching for mystery hash...'' @ nl)]
     @ concat (map (step_output sha256 data (num_headers data)) (py_range 0 (num_headers data)))
     @ post"
  by (simp add: search_report_def Let_def printed_search_loop)
section \<open>Hexadecimal rendering\<close>

lemma hex_digit_inject:
  assumes "a < 16" and "b < 16"
  shows "hex_digit a = hex_digit b \<longleftrightarrow> a = b"
proof -
  have "distinct ''0123456789abcdef''"
    by simp
  moreover from assms have "a < length ''0123456789abcdef''" and "b < length ''0123456789abcdef''"
    by simp_all
  ultimately show ?thesis
    unfolding hex_digit_def by (rule nth_eq_iff_index_eq)
qed

lemma hex_byte_inject: "hex_byte a = hex_byte b \<longleftrightarrow> a = b"
proof
  assume eq: "hex_byte a = hex_byte b"
  have lt: "unat x div 16 < 16" "unat x mod 16 < 16" for x :: byte
    using unsigned_less [of x, where ?'a = nat] by simp_all
  from eq have "unat a div 16 = unat b div 16" and "unat a mod 16 = unat b mod 16"
    by (simp_all add: hex_byte_def hex_digit_inject lt)
  then have "unat a = unat b"
    by (metis div_mult_mod_eq)
  then show "a = b"
    by (rule word_unat_eq_iff [THEN iffD2])
qed simp

lemma hex_inject: "hex x = hex y \<longleftrightarrow> x = y"
proof
  show "x = y" if "hex x = hex y"
    using that
  proof (induction x arbitrary: y)
    case Nil
    then show ?case
      by (cases y) (simp_all add: hex_def hex_byte_def)
  next
    case (Cons a x)
    show ?case
    proof (cases y)
      case Nil
      with Cons.prems show ?thesis
        by (simp add: hex_def hex_byte_def)
    next
      case (Cons b y')
      with Cons.prems have "hex_byte a @ hex x = hex_byte b @ hex y'"
        by (simp add: hex_def)
      moreover have "length (hex_byte a) = length (hex_byte b)"
        by (simp add: hex_byte_def)
      ultimately have "hex_byte a = hex_byte b" and "hex x = hex y'"
        by simp_all
      with Cons.IH Cons show ?thesis
        by (simp add: hex_byte_inject)
    qed
  qed
qed simp

lemma length_hex: "length (hex x) = 2 * length x"
  by (induction x) (simp_all add: hex_def hex_byte_def)

lemma hex_digit_lowercase:
  assumes "d < 16"
  shows "hex_digit d \<in> set ''0123456789abcdef''"
proof -
  from assms have "d < length ''0123456789abcdef''"
    by simp
  then show ?thesis
    unfolding hex_digit_def by (rule nth_mem)
qed

lemma hex_lowercase: "set (hex x) \<subseteq> set ''0123456789abcdef''"
proof -
  have lt: "unat b div 16 < 16" "unat b mod 16 < 16" for b :: byte
    using unsigned_less [of b, where ?'a = nat] by simp_all
  have "set (hex_byte b) \<subseteq> set ''0123456789abcdef''" for b
    unfolding hex_byte_def using hex_digit_lowercase [OF lt(1)] hex_digit_lowercase [OF lt(2)]
    by simp
  then show ?thesis
    unfolding hex_def by (induction x) auto
qed

section \<open>The hash the scripts print and compare\<close>

text \<open>
  C1. At each of the four places where a script hashes a record \<open>b\<close>, the string it
  gets is the lowercase hexadecimal rendering of the \<^verbatim>\<open>HeaderCodec.hash\<close> of the
  specification, the byte-reversed double SHA-256 of \<open>b\<close>: a value of \<open>b\<close> alone (for
  the given digest function). It is this string that both scripts compare with the
  hash seen on the wire: search\_mystery\_hash.py reports index \<open>i\<close> exactly when \<open>i\<close>
  is the index of a complete record whose hash renders as \<open>mystery_hash\<close> (or as
  \<open>expected_hash\<close>), test\_mystery\_hash.py exactly when \<open>i\<close> is one of 1998 to 2002,
  passes the guard and the hash renders as \<open>mystery_hash\<close>. The rendering has two
  lowercase digits for each byte and is one-to-one, so comparing the strings compares
  the hashes.
\<close>

theorem header_hash_is_reversed_double_sha256:
  "search_hash_hex sha256 b = hex (HeaderCodec_hash sha256 b)
   \<and> search_h_hex sha256 b = hex (HeaderCodec_hash sha256 b)
   \<and> search_last_hash_hex sha256 b = hex (HeaderCodec_hash sha256 b)
   \<and> test_hash_hex sha256 b = hex (HeaderCodec_hash sha256 b)
   \<and> HeaderCodec_hash sha256 b = rev (sha256 (sha256 b))
   \<and> (Found_mystery i \<in> set (search_report sha256 data) \<longleftrightarrow>
        0 \<le> i \<and> i < num_headers data
        \<and> hex (HeaderCodec_hash sha256 (header_data data i)) = mystery_hash)
   \<and> (Found_expected i \<in> set (search_report sha256 data) \<longleftrightarrow>
        0 \<le> i \<and> i < num_headers data
        \<and> hex (HeaderCodec_hash sha256 (header_data data i)) = expected_hash)
   \<and> (Mystery_at i \<in> set (test_scan sha256 data) \<longleftrightarrow>
        1998 \<le> i \<and> i < 2003 \<and> test_guard data i
        \<and> hex (HeaderCodec_hash sha256 (header_data data i)) = mystery_hash)
   \<and> length (hex x) = 2 * length x
   \<and> set (hex x) \<subseteq> set ''0123456789abcdef''
   \<and> (hex x = hex y \<longleftrightarrow> x = y)"
proof -
  have sites: "search_hash_hex sha256 c = hex (HeaderCodec_hash sha256 c)"
    "search_h_hex sha256 c = hex (HeaderCodec_hash sha256 c)"
    "search_last_hash_hex sha256 c = hex (HeaderCodec_hash sha256 c)"
    "test_hash_hex sha256 c = hex (HeaderCodec_hash sha256 c)" for c
    by (simp_all add: search_hash_hex_def search_h_hex_def search_last_hash_hex_def
        test_hash_hex_def HeaderCodec_hash_def)
  have "HeaderCodec_hash sha256 b = rev (sha256 (sha256 b))"
    by (simp add: HeaderCodec_hash_def)
  moreover note sites [of b]
    Found_mystery_in_search_report [of i sha256 data, unfolded sites]
    Found_expected_in_search_report [of i sha256 data, unfolded sites]
    Mystery_at_in_test_scan [of i sha256 data, unfolded sites]
    length_hex [of x] hex_lowercase [of x] hex_inject [of x y]
  ultimately show ?thesis
    by blast
qed
text \<open>
  A digest function for running the scripts on concrete files: it returns, for every
  input, the 32 bytes whose reversal renders as \<open>mystery_hash\<close>.
\<close>

definition mystery_digest :: bytes where
  "mystery_digest =
     [0x49, 0xF7, 0x99, 0x0C, 0xC3, 0x82, 0xE1, 0x38, 0xB9, 0xE7, 0x01, 0xAF, 0x03, 0x33,
      0xAD, 0x80, 0x67, 0x00, 0x1D, 0x53, 0xEE, 0x09, 0x21, 0x6B, 0xD1, 0x2C, 0x90, 0xAE,
      0x14, 0x00, 0x00, 0x00]"

definition constant_sha256 :: "bytes \<Rightarrow> bytes" where
  "constant_sha256 x = mystery_digest"

lemma hex_rev_mystery_digest: "hex (rev mystery_digest) = mystery_hash"
  by (simp add: mystery_digest_def mystery_hash_def hex_def hex_byte_def hex_digit_def)

lemma mystery_not_expected: "mystery_hash \<noteq> expected_hash"
  by (simp add: mystery_hash_def expected_hash_def)

lemma num_headers_one_record: "num_headers (replicate 80 0) = 1"
  by (simp add: num_headers_def len_def header_size_def)

theorem header_hash_is_reversed_double_sha256_witness:
  "Found_mystery 0 \<in> set (search_report constant_sha256 (replicate 80 0))
   \<and> search_hash_hex constant_sha256 (replicate 80 0) = mystery_hash"
  using header_hash_is_reversed_double_sha256
    [of constant_sha256 "replicate 80 0" 0 "replicate 80 0"]
  by (simp add: HeaderCodec_hash_def constant_sha256_def hex_rev_mystery_digest
      num_headers_one_record)

lemma same_hash:
  "search_h_hex sha256 b = search_hash_hex sha256 b"
  "search_last_hash_hex sha256 b = search_hash_hex sha256 b"
  "test_hash_hex sha256 b = search_hash_hex sha256 b"
  by (simp_all add: search_hash_hex_def search_h_hex_def search_last_hash_hex_def
      test_hash_hex_def)

lemma surrounding_first_pass:
  "surrounding sha256 data n i =
     map (\<lambda>j. Height_line j (search_hash_hex sha256 (header_data data j))
                 (if j = i then '' <-- MYSTERY'' else []))
       (py_range (max 0 (i - 2)) (min n (i + 3)))"
  by (simp add: surrounding_def Let_def same_hash)

lemma last_headers_first_pass:
  "last_headers sha256 data n =
     map (\<lambda>j. Height_line j (search_hash_hex sha256 (header_data data j)) [])
       (py_range (max 0 (n - 5)) n)"
  by (simp add: last_headers_def same_hash)

lemma Height_line_in_step_output:
  assumes "Height_line j h m \<in> set (step_output sha256 data n i)"
  shows "Height_line j h m \<in> set (surrounding sha256 data n i)"
  using assms by (auto simp: step_output_def search_step_def Let_def split: if_splits)

lemma Height_line_in_search_report:
  assumes "Height_line j h m \<in> set (search_report sha256 data)"
  shows "0 \<le> j \<and> j < num_headers data \<and> h = search_hash_hex sha256 (header_data data j)"
proof -
  let ?n = "num_headers data"
  from assms consider i where "0 \<le> i" "i < ?n" "Height_line j h m \<in> set (step_output sha256 data ?n i)"
    | "Height_line j h m \<in> set (last_headers sha256 data ?n)"
    by (auto simp: search_report_def Let_def printed_search_loop split: if_splits)
  then show ?thesis
  proof cases
    case 1
    from 1(3) have "Height_line j h m \<in> set (surrounding sha256 data ?n i)"
      by (rule Height_line_in_step_output)
    then show ?thesis
      by (auto simp: surrounding_first_pass)
  next
    case 2
    then show ?thesis
      by (auto simp: last_headers_first_pass)
  qed
qed

text \<open>
  C9. The hash computations of search\_mystery\_hash.py (first pass, surrounding
  headers, last headers) and of test\_mystery\_hash.py give the same string for every
  record, and every line the scripts print for a record carries the hash of the first
  pass: the listing of the headers surrounding index \<open>i\<close> is the list of the first-pass
  hashes of the records \<open>max 0 (i - 2)\<close> to \<open>min n (i + 3) - 1\<close>, with the marker at
  \<open>i\<close> alone; the listing of the last headers and the lines of
  test\_mystery\_hash.py are first-pass hashes as well; and every height line in the
  output of search\_mystery\_hash.py names a complete record and its first-pass hash.
  So where the first pass reports a match at index \<open>i\<close>, the listing of the
  surrounding headers follows it in the output and has the line of index \<open>i\<close> with
  the matched hash \<open>mystery_hash\<close> and the marker, and no other line of the listing
  has the marker.
\<close>

theorem hash_computations_agree:
  "search_hash_hex sha256 b = search_h_hex sha256 b
   \<and> search_h_hex sha256 b = test_hash_hex sha256 b
   \<and> search_last_hash_hex sha256 b = test_hash_hex sha256 b
   \<and> surrounding sha256 data n i =
       map (\<lambda>j. Height_line j (search_hash_hex sha256 (header_data data j))
                   (if j = i then '' <-- MYSTERY'' else []))
         (py_range (max 0 (i - 2)) (min n (i + 3)))
   \<and> last_headers sha256 data n =
       map (\<lambda>j. Height_line j (search_hash_hex sha256 (header_data data j)) [])
         (py_range (max 0 (n - 5)) n)
   \<and> (\<forall>j h m. Height_line j h m \<in> set (search_report sha256 data) \<longrightarrow>
         0 \<le> j \<and> j < num_headers data \<and> h = search_hash_hex sha256 (header_data data j))
   \<and> (\<forall>j h m. Height_line j h m \<in> set (test_scan sha256 data) \<longleftrightarrow>
         1998 \<le> j \<and> j < 2003 \<and> test_guard data j
         \<and> h = search_hash_hex sha256 (header_data data j) \<and> m = [])
   \<and> (Found_mystery i \<in> set (search_report sha256 data) \<longrightarrow>
        (\<exists>pre post. search_report sha256 data =
            pre @ [Found_mystery i, Text (nl @ ''Surrounding headers:'')]
                @ surrounding sha256 data (num_headers data) i @ post)
        \<and> Height_line i mystery_hash '' <-- MYSTERY''
            \<in> set (surrounding sha256 data (num_headers data) i)
        \<and> (\<forall>j h. Height_line j h '' <-- MYSTERY''
                \<in> set (surrounding sha256 data (num_headers data) i)
              \<longrightarrow> j = i \<and> h = mystery_hash))"
proof -
  let ?n = "num_headers data"
  have same: "search_hash_hex sha256 c = search_h_hex sha256 c"
    "search_h_hex sha256 c = test_hash_hex sha256 c"
    "search_last_hash_hex sha256 c = test_hash_hex sha256 c" for c
    by (simp_all add: same_hash)
  have lines: "\<forall>j h m. Height_line j h m \<in> set (search_report sha256 data) \<longrightarrow>
      0 \<le> j \<and> j < num_headers data \<and> h = search_hash_hex sha256 (header_data data j)"
    using Height_line_in_search_report by blast
  have test_lines: "\<forall>j h m. Height_line j h m \<in> set (test_scan sha256 data) \<longleftrightarrow>
      1998 \<le> j \<and> j < 2003 \<and> test_guard data j
      \<and> h = search_hash_hex sha256 (header_data data j) \<and> m = []"
    by (simp add: Height_line_in_test_scan same_hash)
  have listing: "(\<exists>pre post. search_report sha256 data =
            pre @ [Found_mystery i, Text (nl @ ''Surrounding headers:'')]
                @ surrounding sha256 data ?n i @ post)
        \<and> Height_line i mystery_hash '' <-- MYSTERY'' \<in> set (surrounding sha256 data ?n i)
        \<and> (\<forall>j h. Height_line j h '' <-- MYSTERY'' \<in> set (surrounding sha256 data ?n i)
              \<longrightarrow> j = i \<and> h = mystery_hash)"
    if found: "Found_mystery i \<in> set (search_report sha256 data)"
  proof -
    from found have i: "0 \<le> i" "i < ?n"
      and hash: "search_hash_hex sha256 (header_data data i) = mystery_hash"
      by (simp_all add: Found_mystery_in_search_report)
    from i have "i \<in> set (py_range 0 ?n)"
      by simp
    then have "\<exists>ys zs. py_range 0 ?n = ys @ i # zs"
      by (rule split_list)
    then obtain ys zs where range: "py_range 0 ?n = ys @ i # zs"
      by blast
    have "\<exists>rest. step_output sha256 data ?n i =
        [Found_mystery i, Text (nl @ ''Surrounding headers:'')]
        @ surrounding sha256 data ?n i @ rest"
      using hash
      by (simp add: step_output_def search_step_def Let_def mystery_not_expected)
    then obtain rest where step: "step_output sha256 data ?n i =
        [Found_mystery i, Text (nl @ ''Surrounding headers:'')]
        @ surrounding sha256 data ?n i @ rest"
      by blast
    obtain tail where "search_report sha256 data =
        [Total_headers ?n, Text (''Searching for mystery hash...'' @ nl)]
        @ concat (map (step_output sha256 data ?n) (py_range 0 ?n)) @ tail"
      using search_report_loop by blast
    then have "search_report sha256 data =
        ([Total_headers ?n, Text (''Searching for mystery hash...'' @ nl)]
          @ concat (map (step_output sha256 data ?n) ys))
        @ step_output sha256 data ?n i
        @ (concat (map (step_output sha256 data ?n) zs) @ tail)"
      by (simp add: range)
    then obtain before after where "search_report sha256 data =
        before @ step_output sha256 data ?n i @ after"
      by blast
    with step have "search_report sha256 data =
        before @ [Found_mystery i, Text (nl @ ''Surrounding headers:'')]
               @ surrounding sha256 data ?n i @ (rest @ after)"
      by simp
    then have split: "\<exists>pre post. search_report sha256 data =
        pre @ [Found_mystery i, Text (nl @ ''Surrounding headers:'')]
            @ surrounding sha256 data ?n i @ post"
      by blast
    from i have "i \<in> set (py_range (max 0 (i - 2)) (min ?n (i + 3)))"
      by simp
    then have "Height_line i (search_h_hex sha256 (header_data data i)) '' <-- MYSTERY''
        \<in> set (surrounding sha256 data ?n i)"
      unfolding surrounding_def set_map by (rule rev_image_eqI) (simp add: Let_def)
    with hash have line: "Height_line i mystery_hash '' <-- MYSTERY''
        \<in> set (surrounding sha256 data ?n i)"
      by (simp add: same)
    have "j = i \<and> h = mystery_hash"
      if "Height_line j h '' <-- MYSTERY'' \<in> set (surrounding sha256 data ?n i)" for j h
    proof -
      from that have "j = i" and "h = search_h_hex sha256 (header_data data j)"
        by (auto simp: surrounding_def Let_def split: if_splits)
      with hash show ?thesis
        by (simp add: same)
    qed
    with split line show ?thesis
      by blast
  qed
  then have "Found_mystery i \<in> set (search_report sha256 data) \<longrightarrow>
        (\<exists>pre post. search_report sha256 data =
            pre @ [Found_mystery i, Text (nl @ ''Surrounding headers:'')]
                @ surrounding sha256 data ?n i @ post)
        \<and> Height_line i mystery_hash '' <-- MYSTERY'' \<in> set (surrounding sha256 data ?n i)
        \<and> (\<forall>j h. Height_line j h '' <-- MYSTERY'' \<in> set (surrounding sha256 data ?n i)
              \<longrightarrow> j = i \<and> h = mystery_hash)"
    by (rule impI)
  with same [of b] surrounding_first_pass [of sha256 data n i]
    last_headers_first_pass [of sha256 data n] lines test_lines
  show ?thesis
    by (intro conjI) assumption+
qed

theorem hash_computations_agree_witness:
  "Found_mystery 0 \<in> set (search_report constant_sha256 (replicate 80 0))
   \<and> Height_line 0 mystery_hash '' <-- MYSTERY''
        \<in> set (surrounding constant_sha256 (replicate 80 0) 1 0)
   \<and> Height_line 0 mystery_hash [] \<in> set (search_report constant_sha256 (replicate 80 0))
   \<and> mystery_hash = search_hash_hex constant_sha256 (header_data (replicate 80 0) 0)"
proof -
  have found: "Found_mystery 0 \<in> set (search_report constant_sha256 (replicate 80 0))"
    by (simp add: Found_mystery_in_search_report num_headers_one_record search_hash_hex_def
        constant_sha256_def hex_rev_mystery_digest)
  have "last_headers constant_sha256 (replicate 80 0) 1 = [Height_line 0 mystery_hash []]"
    by (simp add: last_headers_def py_range_def upto.simps search_last_hash_hex_def
        constant_sha256_def hex_rev_mystery_digest)
  then have line: "Height_line 0 mystery_hash [] \<in> set (search_report constant_sha256 (replicate 80 0))"
    by (simp add: search_report_def Let_def num_headers_one_record)
  note agree = hash_computations_agree [of constant_sha256 "[]" "replicate 80 0" 1 0]
  from agree found have "Height_line 0 mystery_hash '' <-- MYSTERY''
      \<in> set (surrounding constant_sha256 (replicate 80 0) (num_headers (replicate 80 0)) 0)"
    by blast
  moreover from agree line
  have "mystery_hash = search_hash_hex constant_sha256 (header_data (replicate 80 0) 0)"
    by blast
  ultimately show ?thesis
    using found line by (simp add: num_headers_one_record)
qed

section \<open>Runs of the scripts\<close>

text \<open>The world when a script starts: nothing printed, no file operation performed.\<close>

definition initial :: "codec \<Rightarrow> (string \<rightharpoonup> node) \<Rightarrow> world" where
  "initial c fs = \<lparr>files = fs, ops = [], stdout = [], encoding = c\<rparr>"


text \<open>What each script prints before it looks for the segment file.\<close>

definition search_banner :: "out list" where
  "search_banner =
     [Text ''Searching for Mystery Hash in SPV Storage'',
      Text (''========================================='' @ nl)]"


text \<open>
  \<open>printable c\<close>: the encoding \<open>c\<close> can encode the text of the item. A sequence of
  \<^verbatim>\<open>print\<close> calls prints the items up to the first one that is not printable, and
  raises at that one.
\<close>

definition printable :: "codec \<Rightarrow> out \<Rightarrow> bool" where
  "printable c x = encodable c (render x)"

lemma print_eq:
  "print x w =
     (if printable (encoding w) x then (None, w\<lparr>stdout := stdout w @ [x]\<rparr>)
      else (Some (UnicodeEncodeError (render x)), w))"
  by (simp add: print_def printable_def)

lemma prints_eq:
  "prints xs w =
     (case dropWhile (printable (encoding w)) xs of
        [] \<Rightarrow> None
      | x # rest \<Rightarrow> Some (UnicodeEncodeError (render x)),
      w\<lparr>stdout := stdout w @ takeWhile (printable (encoding w)) xs\<rparr>)"
  by (induction xs arbitrary: w) (simp_all add: print_eq then_do_def)

lemma prints_all:
  assumes "list_all (printable (encoding w)) xs"
  shows "prints xs w = (None, w\<lparr>stdout := stdout w @ xs\<rparr>)"
proof -
  from assms have "takeWhile (printable (encoding w)) xs = xs"
    and "dropWhile (printable (encoding w)) xs = []"
    by (simp_all add: list_all_iff)
  then show ?thesis
    by (simp only: prints_eq list.case)
qed

lemma printable_Utf8 [simp]: "printable Utf8 x"
  by (simp add: printable_def encodable_def)

lemma ascii_encodable:
  assumes "list_all (\<lambda>ch. (of_char ch :: nat) < 0x80) s"
  shows "encodable c s"
proof (cases c)
  case Latin1
  from assms have "list_all (\<lambda>ch. (of_char ch :: nat) < 0xC4) s"
    by (rule list.pred_mono_strong) simp
  with Latin1 show ?thesis
    by (simp add: encodable_def)
qed (use assms in \<open>simp_all add: encodable_def\<close>)

lemma search_banner_printable: "list_all (printable c) search_banner"
  unfolding search_banner_def printable_def
  by (simp add: ascii_encodable nl_def)


subsection \<open>What a run leaves unchanged\<close>

text \<open>
  \<open>frame p w w'\<close>: from \<open>w\<close> to \<open>w'\<close> the file system and the encoding are the same,
  and the file operations added are reads of the path \<open>p\<close>.
\<close>

definition frame :: "string \<Rightarrow> world \<Rightarrow> world \<Rightarrow> bool" where
  "frame p w w' \<longleftrightarrow>
     files w' = files w \<and> encoding w' = encoding w
     \<and> (\<exists>new. ops w' = ops w @ new
          \<and> set new \<subseteq> {Op_exists p, Op_getsize p, Op_open p ''rb'', Op_read p})"

lemma frame_refl: "frame p w w"
  by (simp add: frame_def)












subsection \<open>What a run does\<close>

lemma then_do_simps [simp]:
  "then_do (None, w) k = k w"
  "then_do (Some e, w) k = (Some e, w)"
  by (simp_all add: then_do_def)

lemma stdout_after_ops [simp]:
  "stdout_update f (ops_update g w) = ops_update g (stdout_update f w)"
  by (cases w) simp


lemma str_nat_ascii: "list_all (\<lambda>ch. (of_char ch :: nat) < 0x80) (str_nat n)"
proof (induction n rule: str_nat.induct)
  case (1 n)
  have digit: "(of_char (''0123456789'' ! k) :: nat) < 0x80" if "k < 10" for k
  proof -
    from that have "''0123456789'' ! k \<in> set ''0123456789''"
      by (intro nth_mem) simp
    then show ?thesis
      by auto
  qed
  show ?case
  proof (cases "n < 10")
    case True
    then show ?thesis
      by (subst str_nat.simps) (simp add: digit)
  next
    case False
    moreover have "n mod 10 < 10"
      by simp
    ultimately show ?thesis
      using 1 by (subst str_nat.simps) (simp add: digit del: str_nat.simps)
  qed
qed

lemma str_int_ascii: "list_all (\<lambda>ch. (of_char ch :: nat) < 0x80) (str_int i)"
  by (simp add: str_int_def str_nat_ascii del: str_nat.simps)

lemma printable_sizes [simp]:
  "printable c (Size_on_disk n)" "printable c (Expected_size n)"
  unfolding printable_def
  by (rule ascii_encodable; simp add: str_int_ascii del: str_nat.simps)+

lemma prints_search_banner: "prints search_banner w = (None, w\<lparr>stdout := stdout w @ search_banner\<rparr>)"
  by (rule prints_all) (rule search_banner_printable)


text \<open>
  search\_mystery\_hash.py, by what is at the segment path. The banner is in ASCII, so
  it is printed under every encoding.
\<close>

lemma search_mystery_hash_run:
  "search_mystery_hash sha256 environ w =
     (let path = segment_path environ;
          w' = (\<lambda>new. w\<lparr>ops := ops w @ new, stdout := stdout w @ search_banner\<rparr>)
      in case files w path of
           None \<Rightarrow> print (Segment_not_found path) (w' [Op_exists path])
         | Some (Directory n) \<Rightarrow>
             (Some (IsADirectoryError path), w' [Op_exists path, Op_open path ''rb''])
         | Some (File readable data) \<Rightarrow>
             if readable
             then prints (search_report sha256 data)
                    (w' [Op_exists path, Op_open path ''rb'', Op_read path])
             else (Some (PermissionError path), w' [Op_exists path, Op_open path ''rb'']))"
proof -
  have "search_mystery_hash sha256 environ w =
      then_do (prints search_banner w) (\<lambda>w2.
        let path = segment_path environ;
            (found, w3) = os_path_exists path w2
        in if found then
             (case open_read path ''rb'' w3 of
                (Inl e, w4) \<Rightarrow> (Some e, w4)
              | (Inr data, w4) \<Rightarrow> prints (search_report sha256 data) w4)
           else print (Segment_not_found path) w3)"
    by (simp add: search_mystery_hash_def search_banner_def then_do_def split: prod.split option.split)
  then show ?thesis
    by (simp add: prints_search_banner os_path_exists_def open_read_def Let_def
        split: option.split node.split)
qed




text \<open>
  A run of search\_mystery\_hash.py with \<^verbatim>\<open>HOME\<close> unset and the output in UTF-8, on a
  file of one record and five more bytes: the five bytes are reported as leftover and
  hashed nowhere.
\<close>

lemma search_mystery_hash_example:
  "search_mystery_hash constant_sha256 Map.empty
     (initial Utf8
        [''./Library/Application Support/Dash-Evo-Tool/spv/dash/headers/segment_0000.dat''
           \<mapsto> File True (replicate 85 0)])
   = (None,
      \<lparr>files = [''./Library/Application Support/Dash-Evo-Tool/spv/dash/headers/segment_0000.dat''
                 \<mapsto> File True (replicate 85 0)],
       ops = [Op_exists ''./Library/Application Support/Dash-Evo-Tool/spv/dash/headers/segment_0000.dat'',
              Op_open ''./Library/Application Support/Dash-Evo-Tool/spv/dash/headers/segment_0000.dat'' ''rb'',
              Op_read ''./Library/Application Support/Dash-Evo-Tool/spv/dash/headers/segment_0000.dat''],
       stdout =
         [Text ''Searching for Mystery Hash in SPV Storage'',
          Text (''========================================='' @ nl),
          Total_headers 1,
          Text (''Searching for mystery hash...'' @ nl),
          Found_mystery 0,
          Text (nl @ ''Surrounding headers:''),
          Height_line 0 mystery_hash '' <-- MYSTERY'',
          Text [],
          Text (cross_mark @ '' Expected hash for height 2000 NOT found''),
          Text ''   The file may not contain headers up to 2000 yet'',
          Text (nl @ ''File analysis:''),
          File_size 85,
          Complete_headers 1,
          Leftover 5,
          Text (nl @ ''Last 5 headers in file:''),
          Height_line 0 mystery_hash []],
       encoding = Utf8\<rparr>)"
proof -
  let ?p = "''./Library/Application Support/Dash-Evo-Tool/spv/dash/headers/segment_0000.dat''"
  have path: "segment_path Map.empty = ?p"
    by (simp add: segment_path_def os_environ_get_def os_path_join_def segment_rel_path_def)
  have n: "num_headers (replicate 85 0) = 1" and size: "len (replicate 85 (0::byte)) = 85"
    by (simp_all add: num_headers_def len_def header_size_def)
  have hash: "search_hash_hex constant_sha256 x = mystery_hash"
    "search_h_hex constant_sha256 x = mystery_hash"
    "search_last_hash_hex constant_sha256 x = mystery_hash" for x
    by (simp_all add: search_hash_hex_def search_h_hex_def search_last_hash_hex_def
        constant_sha256_def hex_rev_mystery_digest)
  have ranges: "py_range 0 1 = [0]" "py_range (max 0 (0 - 2)) (min 1 (0 + 3)) = [0]"
    "py_range (max 0 (1 - 5)) 1 = [0]"
    by (simp_all add: py_range_def upto.simps)
  have report: "search_report constant_sha256 (replicate 85 0) =
      [Total_headers 1,
       Text (''Searching for mystery hash...'' @ nl),
       Found_mystery 0,
       Text (nl @ ''Surrounding headers:''),
       Height_line 0 mystery_hash '' <-- MYSTERY'',
       Text [],
       Text (cross_mark @ '' Expected hash for height 2000 NOT found''),
       Text ''   The file may not contain headers up to 2000 yet'',
       Text (nl @ ''File analysis:''),
       File_size 85,
       Complete_headers 1,
       Leftover 5,
       Text (nl @ ''Last 5 headers in file:''),
       Height_line 0 mystery_hash []]"
    by (simp add: search_report_def n size ranges search_step_def surrounding_def
        last_headers_def hash mystery_not_expected header_size_def)
  have "prints (search_report constant_sha256 (replicate 85 0)) v
      = (None, v\<lparr>stdout := stdout v @ search_report constant_sha256 (replicate 85 0)\<rparr>)"
    if "encoding v = Utf8" for v
    by (rule prints_all) (simp add: that list_all_iff)
  then show ?thesis
    by (simp add: search_mystery_hash_run path initial_def search_banner_def Let_def report
        del: prints.simps)
qed

text \<open>Opening a file in mode \<^verbatim>\<open>wb\<close> would empty it: the model can tell the difference.\<close>

lemma open_wb_truncates:
  assumes "files w p = Some (File readable d)"
  shows "files (snd (open_read p ''wb'' w)) p = Some (File readable [])"
  using assms by (simp add: open_read_def Let_def)



subsection \<open>What a run depends on\<close>








section \<open>Only whole records are hashed\<close>

lemma record_hashes_agree:
  assumes "\<forall>x. length x = 80 \<longrightarrow> sha256 (sha256 x) = sha256' (sha256' x)"
    and "0 \<le> i" and "i < num_headers data"
  shows "search_hash_hex sha256 (header_data data i) = search_hash_hex sha256' (header_data data i)"
    and "search_h_hex sha256 (header_data data i) = search_h_hex sha256' (header_data data i)"
    and "search_last_hash_hex sha256 (header_data data i)
       = search_last_hash_hex sha256' (header_data data i)"
    and "test_hash_hex sha256 (header_data data i) = test_hash_hex sha256' (header_data data i)"
proof -
  from assms(2,3) have "length (header_data data i) = 80"
    by (rule length_header_data)
  with assms(1) have "sha256 (sha256 (header_data data i)) = sha256' (sha256' (header_data data i))"
    by simp
  then show "search_hash_hex sha256 (header_data data i) = search_hash_hex sha256' (header_data data i)"
    and "search_h_hex sha256 (header_data data i) = search_h_hex sha256' (header_data data i)"
    and "search_last_hash_hex sha256 (header_data data i)
       = search_last_hash_hex sha256' (header_data data i)"
    and "test_hash_hex sha256 (header_data data i) = test_hash_hex sha256' (header_data data i)"
    by (simp_all add: search_hash_hex_def search_h_hex_def search_last_hash_hex_def
        test_hash_hex_def)
qed

lemma surrounding_cong:
  assumes "\<forall>x. length x = 80 \<longrightarrow> sha256 (sha256 x) = sha256' (sha256' x)"
  shows "surrounding sha256 data (num_headers data) i = surrounding sha256' data (num_headers data) i"
  unfolding surrounding_def
  by (rule map_cong) (simp_all add: record_hashes_agree [OF assms])

lemma search_step_cong:
  assumes "\<forall>x. length x = 80 \<longrightarrow> sha256 (sha256 x) = sha256' (sha256' x)"
    and "0 \<le> i" and "i < num_headers data"
  shows "search_step sha256 data (num_headers data) i = search_step sha256' data (num_headers data) i"
  by (rule ext)
    (simp only: search_step_def record_hashes_agree [OF assms] surrounding_cong [OF assms(1)])

lemma search_report_cong:
  assumes "\<forall>x. length x = 80 \<longrightarrow> sha256 (sha256 x) = sha256' (sha256' x)"
  shows "search_report sha256 data = search_report sha256' data"
proof -
  let ?n = "num_headers data"
  have "fold (search_step sha256 data ?n) (py_range 0 ?n) s
      = fold (search_step sha256' data ?n) (py_range 0 ?n) s" for s
    by (rule fold_cong) (simp_all add: search_step_cong [OF assms])
  moreover have "last_headers sha256 data ?n = last_headers sha256' data ?n"
    unfolding last_headers_def
    by (rule map_cong) (simp_all add: record_hashes_agree [OF assms])
  ultimately show ?thesis
    by (simp add: search_report_def)
qed

lemma test_scan_cong:
  assumes "\<forall>x. length x = 80 \<longrightarrow> sha256 (sha256 x) = sha256' (sha256' x)"
  shows "test_scan sha256 data = test_scan sha256' data"
proof -
  have "test_step sha256 data i = test_step sha256' data i" if "i \<in> set (py_range 1998 2003)" for i
  proof (cases "test_guard data i")
    case True
    moreover from that have "0 \<le> i"
      by simp
    ultimately show ?thesis
      by (simp add: test_step_def test_guard_num_headers record_hashes_agree [OF assms])
  next
    case False
    then show ?thesis
      by (simp add: test_step_def)
  qed
  then have "map (test_step sha256 data) (py_range 1998 2003)
      = map (test_step sha256' data) (py_range 1998 2003)"
    by (intro map_cong) simp_all
  then show ?thesis
    by (simp only: test_scan_def)
qed

text \<open>
  C8. Every slice that is hashed has exactly 80 bytes and lies inside the complete
  records of the file, so the \<open>len data mod 80\<close> bytes after them are in no hashed
  slice. In search\_mystery\_hash.py this holds for the indices of the first loop, of
  the loop over the neighbours of any index, and of the loop over the last five
  records; in test\_mystery\_hash.py for the indices 1998 to 2002 that pass the guard.
  So what the two scripts print is decided by the double hashes of 80-byte inputs
  alone: two digest functions that agree on them give the same output.
\<close>

theorem hashed_slices_are_whole_records:
  fixes data :: bytes and sha256 sha256' :: "bytes \<Rightarrow> bytes"
  defines "n \<equiv> num_headers data"
  defines "whole \<equiv> \<lambda>j. length (header_data data j) = 80
              \<and> header_data (take (nat (n * 80)) data) j = header_data data j"
  shows "(\<forall>i\<in>set (py_range 0 n). whole i)
       \<and> (\<forall>i. \<forall>j\<in>set (py_range (max 0 (i - 2)) (min n (i + 3))). whole j)
       \<and> (\<forall>i\<in>set (py_range (max 0 (n - 5)) n). whole i)
       \<and> (\<forall>i\<in>set (py_range 1998 2003). test_guard data i \<longrightarrow> whole i)
       \<and> ((\<forall>x. length x = 80 \<longrightarrow> sha256 (sha256 x) = sha256' (sha256' x)) \<longrightarrow>
            search_report sha256 data = search_report sha256' data
            \<and> test_scan sha256 data = test_scan sha256' data)"
proof -
  have whole: "whole j" if "0 \<le> j" and "j < n" for j
    using that unfolding whole_def n_def
    by (simp add: length_header_data header_data_ignores_leftover)
  have "whole j" if "j \<in> set (py_range 1998 2003)" and "test_guard data j" for j
  proof -
    from that(1) have "0 \<le> j" by simp
    moreover from that(2) have "j < n" by (simp add: test_guard_num_headers n_def)
    ultimately show ?thesis by (rule whole)
  qed
  with whole search_report_cong [of sha256 sha256' data] test_scan_cong [of sha256 sha256' data]
  show ?thesis by simp
qed

theorem hashed_slices_are_whole_records_witness:
  "length (header_data (replicate 165 (7::byte)) 1) = 80
   \<and> header_data (take 160 (replicate 165 (7::byte))) 1 = header_data (replicate 165 7) 1
   \<and> search_report constant_sha256 (replicate 165 7)
       = search_report (\<lambda>x. if length x = 80 then [] else mystery_digest) (replicate 165 7)"
proof -
  have n: "num_headers (replicate 165 (7::byte)) = 2"
    by (simp add: num_headers_def len_def header_size_def)
  have "(1::int) \<in> set (py_range 0 (num_headers (replicate 165 (7::byte))))"
    by (simp add: n)
  moreover have "\<forall>x. length x = 80 \<longrightarrow>
      constant_sha256 (constant_sha256 x)
      = (\<lambda>x. if length x = 80 then [] else mystery_digest)
          ((\<lambda>x. if length x = 80 then [] else mystery_digest) x)"
    by (simp add: constant_sha256_def)
  ultimately show ?thesis
    using hashed_slices_are_whole_records [of "replicate 165 7" constant_sha256
        "\<lambda>x. if length x = 80 then [] else mystery_digest"] n
    by simp
qed

section \<open>The header store of the specification\<close>

text \<open>
  The store itself (\<^verbatim>\<open>HeaderCodec\<close>, \<^verbatim>\<open>SegmentFile\<close>, \<^verbatim>\<open>SegmentIndex\<close>, \<^verbatim>\<open>HeaderStore\<close>,
  the block locator builder) is not among the source files; only the two scripts that
  inspect its files are. The definitions of this section are written from the
  specification.
\<close>

text \<open>The error kinds of section 7 of the specification.\<close>

datatype store_error =
    MalformedHeader
  | OutOfRange
  | HeightNotFound
  | NonSequentialWrite
  | HeightGap
  | CorruptSegment

subsection \<open>SegmentFile\<close>

text \<open>
  Modelled from the spec: \<^verbatim>\<open>SegmentFile\<close> (section 4.2), which is not under src/. A
  segment is a file of at most \<open>capacity\<close> records of 80 bytes. Opening it verifies
  \<^verbatim>\<open>file_size % 80 == 0\<close> and fails with \<^verbatim>\<open>CorruptSegment\<close> otherwise.
\<close>

record segment_file =
  capacity :: nat
  contents :: bytes

definition segment_open :: "nat \<Rightarrow> bytes \<Rightarrow> store_error + segment_file" where
  "segment_open cap file =
     (if length file mod 80 \<noteq> 0 then Inl CorruptSegment
      else Inr \<lparr>capacity = cap, contents = file\<rparr>)"

text \<open>Modelled from the spec: \<^verbatim>\<open>record_count() -> integer\<close> is \<^verbatim>\<open>file_size / 80\<close>.\<close>

definition record_count :: "segment_file \<Rightarrow> nat" where
  "record_count s = length (contents s) div 80"

text \<open>
  Modelled from the spec: \<^verbatim>\<open>read(offset) -> bytes[80]\<close> fails with \<^verbatim>\<open>OutOfRange\<close> if
  \<^verbatim>\<open>offset >= capacity\<close> or the file has fewer than \<^verbatim>\<open>offset+1\<close> records, and computes
  the byte position as \<^verbatim>\<open>offset * 80\<close>.
\<close>

definition segment_read :: "segment_file \<Rightarrow> nat \<Rightarrow> store_error + bytes" where
  "segment_read s offset =
     (if capacity s \<le> offset \<or> record_count s < offset + 1 then Inl OutOfRange
      else Inr (take 80 (drop (offset * 80) (contents s))))"

subsection \<open>SegmentIndex\<close>

text \<open>
  Modelled from the spec: \<^verbatim>\<open>SegmentIndex\<close> (section 4.3), which is not under src/. The
  index knows the capacity of a segment and the tip, \<open>None\<close> while the chain is empty.
\<close>

record segment_index =
  segment_capacity :: nat
  tip :: "nat option"



subsection \<open>HeaderStore startup\<close>

text \<open>
  Modelled from the spec: the startup of \<^verbatim>\<open>HeaderStore\<close> (section 4.4), which is not
  under src/: "for each segment file in ascending id order, verify \<^verbatim>\<open>record_count\<close> is
  well-formed"; the index is rebuilt from the record counts on disk. The files are
  given in ascending order of their segment ids.
\<close>

record header_store =
  segments :: "segment_file list"
  index :: segment_index

fun open_segments :: "nat \<Rightarrow> bytes list \<Rightarrow> store_error + segment_file list" where
  "open_segments cap [] = Inr []"
| "open_segments cap (file # rest) =
     (case segment_open cap file of
        Inl e \<Rightarrow> Inl e
      | Inr s \<Rightarrow>
          (case open_segments cap rest of
             Inl e \<Rightarrow> Inl e
           | Inr ss \<Rightarrow> Inr (s # ss)))"

definition store_open :: "nat \<Rightarrow> bytes list \<Rightarrow> store_error + header_store" where
  "store_open cap segment_files =
     (case open_segments cap segment_files of
        Inl e \<Rightarrow> Inl e
      | Inr ss \<Rightarrow>
          (let total = sum_list (map record_count ss)
           in Inr \<lparr>segments = ss,
                   index = \<lparr>segment_capacity = cap,
                            tip = (if total = 0 then None else Some (total - 1))\<rparr>\<rparr>))"

lemma open_segments_corrupt:
  assumes "file \<in> set segment_files" and "length file mod 80 \<noteq> 0"
  shows "open_segments cap segment_files = Inl CorruptSegment"
  using assms
proof (induction segment_files)
  case Nil
  then show ?case by simp
next
  case (Cons f rest)
  show ?case
  proof (cases "length f mod 80 = 0")
    case True
    with Cons show ?thesis
      by (auto simp: segment_open_def)
  next
    case False
    then show ?thesis
      by (simp add: segment_open_def)
  qed
qed

text \<open>
  The read of the specification and the slice of the scripts are the same bytes: a
  record that \<open>segment_read\<close> returns at an offset is the slice \<open>header_data\<close> of the
  file at that index.
\<close>

lemma segment_read_is_header_data:
  assumes "segment_read s offset = Inr r"
  shows "r = header_data (contents s) (int offset)"
proof -
  from assms have count: "offset < record_count s"
    and r: "r = take 80 (drop (offset * 80) (contents s))"
    by (auto simp: segment_read_def split: if_splits)
  from count have "int offset < num_headers (contents s)"
    by (simp add: record_count_def num_headers_def len_def header_size_def zdiv_int)
  then have "header_data (contents s) (int offset)
      = take 80 (drop (nat (int offset) * 80) (contents s))"
    by (intro header_data_in_file) simp_all
  with r show ?thesis
    by simp
qed

text \<open>
  C4. A segment that opens has \<open>record_count\<close> equal to the file size divided by 80,
  which is also the number of headers the scripts compute, and its file is exactly
  that many records long. A file whose size is not a multiple of 80 (the scripts'
  leftover bytes are not zero) does not open: \<open>segment_open\<close> fails with
  \<open>CorruptSegment\<close>, and so does the startup of a store that has such a file among its
  segment files, so that there is no store to read a record from.
\<close>

theorem corrupt_segment_rejected_at_startup:
  "(segment_open cap file = Inr s \<longrightarrow>
      record_count s = length file div 80
      \<and> int (record_count s) = num_headers file
      \<and> length file = 80 * record_count s)
   \<and> (length file mod 80 \<noteq> 0 \<longleftrightarrow> leftover_bytes file \<noteq> 0)
   \<and> (length file mod 80 \<noteq> 0 \<longrightarrow> segment_open cap file = Inl CorruptSegment)
   \<and> (file \<in> set segment_files \<and> length file mod 80 \<noteq> 0 \<longrightarrow>
        store_open cap segment_files = Inl CorruptSegment)"
proof -
  have "record_count s = length file div 80 \<and> int (record_count s) = num_headers file
      \<and> length file = 80 * record_count s"
    if "segment_open cap file = Inr s"
  proof -
    from that have "contents s = file" and "length file mod 80 = 0"
      by (auto simp: segment_open_def split: if_splits)
    then show ?thesis
      by (auto simp: record_count_def num_headers_def len_def header_size_def zdiv_int)
  qed
  moreover have "length file mod 80 \<noteq> 0 \<longleftrightarrow> leftover_bytes file \<noteq> 0"
  proof -
    have "leftover_bytes file = int (length file mod 80)"
      by (simp add: leftover_bytes_def len_def header_size_def zmod_int)
    then show ?thesis by simp
  qed
  moreover have "store_open cap segment_files = Inl CorruptSegment"
    if "file \<in> set segment_files" and "length file mod 80 \<noteq> 0"
    using that by (simp add: store_open_def open_segments_corrupt)
  moreover have "segment_open cap file = Inl CorruptSegment" if "length file mod 80 \<noteq> 0"
    using that by (simp add: segment_open_def)
  ultimately show ?thesis
    by blast
qed

theorem corrupt_segment_rejected_at_startup_witness:
  "store_open 2000 [replicate 160 0, replicate 85 0] = Inl CorruptSegment
   \<and> segment_open 2000 (replicate 160 0) = Inr \<lparr>capacity = 2000, contents = replicate 160 0\<rparr>
   \<and> record_count \<lparr>capacity = 2000, contents = replicate 160 0\<rparr> = 2"
proof -
  have opened: "segment_open 2000 (replicate 160 0)
      = Inr \<lparr>capacity = 2000, contents = replicate 160 0\<rparr>"
    by (simp add: segment_open_def)
  have "replicate 85 0 \<in> set [replicate 160 0, replicate 85 (0::byte)]
      \<and> length (replicate 85 (0::byte)) mod 80 \<noteq> 0"
    by simp
  with corrupt_segment_rejected_at_startup
      [of 2000 "replicate 85 0" s "[replicate 160 0, replicate 85 0]" for s]
    corrupt_segment_rejected_at_startup
      [of 2000 "replicate 160 0" "\<lparr>capacity = 2000, contents = replicate 160 0\<rparr>" "[]"]
    opened
  show ?thesis
    by simp
qed

subsection \<open>HeaderStore append\<close>




text \<open>
  Modelled from the spec: the same sentence of section 3. Writing the segment with id
  \<open>k\<close> back to the store creates its file when there was none (and, in the list of the
  files by id, files without a record for the ids before it that had none).
\<close>

definition put_segment :: "header_store \<Rightarrow> nat \<Rightarrow> segment_file \<Rightarrow> header_store" where
  "put_segment st k s =
     st\<lparr>segments :=
          (segments st
           @ replicate (k + 1 - length (segments st))
               \<lparr>capacity = segment_capacity (index st), contents = []\<rparr>)[k := s]\<rparr>"





lemma index_put_segment [simp]: "index (put_segment st k s) = index st"
  by (simp add: put_segment_def)







subsection \<open>BlockLocator builder\<close>

text \<open>
  Modelled from the spec: \<^verbatim>\<open>BlockLocator.build\<close> (section 4.5), which is not under
  src/: "include the hashes at heights \<^verbatim>\<open>tip, tip-1, tip-2, tip-3, tip-4, tip-6, tip-10,
  tip-18, ...\<close> down to and including genesis (height 0), stopping once height would go
  negative (clamp to 0 and include it exactly once, then stop)". In that sequence the
  first four steps are 1 and every later step is twice the one before:
  \<open>locator_step k\<close> is the distance from entry \<open>k - 1\<close> to entry \<open>k\<close>.
\<close>

definition locator_step :: "nat \<Rightarrow> int" where
  "locator_step k = (if k \<le> 4 then 1 else 2 ^ (k - 4))"

text \<open>
  \<open>locator_from h n\<close>: the heights from \<open>h\<close> on, when \<open>n\<close> entries precede \<open>h\<close>.
  Heights are integers, and the clamp to 0 is written out.
\<close>

function locator_from :: "int \<Rightarrow> nat \<Rightarrow> int list" where
  "locator_from h n =
     h # (if h \<le> 0 then []
          else locator_from (max 0 (h - locator_step (Suc n))) (Suc n))"
  by pat_completeness auto
termination
  by (relation "measure (\<lambda>(h, n). nat h)") (auto simp: locator_step_def)

declare locator_from.simps [simp del]

definition locator_heights :: "int \<Rightarrow> int list" where
  "locator_heights tip_h = locator_from tip_h 0"

text \<open>
  Modelled from the spec: \<^verbatim>\<open>build(tip_height)\<close> is the sequence of the hashes at these
  heights, each read through the store's \<^verbatim>\<open>get_hash\<close>.
\<close>

definition build :: "(int \<Rightarrow> 'hash) \<Rightarrow> int \<Rightarrow> 'hash list" where
  "build get_hash tip_h = map get_hash (locator_heights tip_h)"

lemma locator_step_positive: "1 \<le> locator_step k"
  by (simp add: locator_step_def)

lemma locator_step_doubles:
  "locator_step (Suc k) = (if 4 \<le> k then 2 * locator_step k else locator_step k)"
proof (cases "4 \<le> k")
  case True
  then have "Suc k - 4 = Suc (k - 4)"
    by simp
  with True show ?thesis
    by (simp add: locator_step_def)
next
  case False
  then show ?thesis
    by (simp add: locator_step_def)
qed

lemma locator_from_bounds:
  assumes "0 \<le> h" and "x \<in> set (locator_from h n)"
  shows "0 \<le> x \<and> x \<le> h"
  using assms
proof (induction h n rule: locator_from.induct)
  case (1 h n)
  let ?h' = "max 0 (h - locator_step (Suc n))"
  show ?case
  proof (cases "x = h")
    case True
    with "1.prems" show ?thesis by simp
  next
    case False
    have "locator_from h n = h # (if h \<le> 0 then [] else locator_from ?h' (Suc n))"
      by (rule locator_from.simps)
    with "1.prems"(2) False have pos: "\<not> h \<le> 0" and x: "x \<in> set (locator_from ?h' (Suc n))"
      by (auto split: if_splits)
    from pos x have "0 \<le> x \<and> x \<le> ?h'"
      by (intro "1.IH") simp_all
    moreover from locator_step_positive [of "Suc n"] "1.prems"(1) have "?h' \<le> h"
      by linarith
    ultimately show ?thesis by linarith
  qed
qed

lemma locator_from_below:
  assumes "0 < h" and "x \<in> set (locator_from (max 0 (h - locator_step (Suc n))) (Suc n))"
  shows "x < h"
proof -
  let ?h' = "max 0 (h - locator_step (Suc n))"
  from assms have "x \<le> ?h'"
    using locator_from_bounds [of ?h' x "Suc n"] by simp
  moreover from locator_step_positive [of "Suc n"] assms(1) have "?h' < h"
    by linarith
  ultimately show ?thesis by linarith
qed

lemma locator_from_distinct:
  assumes "0 \<le> h"
  shows "distinct (locator_from h n)"
  using assms
proof (induction h n rule: locator_from.induct)
  case (1 h n)
  show ?case
  proof (cases "h \<le> 0")
    case True
    then show ?thesis
      by (subst locator_from.simps) simp
  next
    case False
    let ?h' = "max 0 (h - locator_step (Suc n))"
    from False have "distinct (locator_from ?h' (Suc n))"
      by (intro "1.IH") simp_all
    moreover from False have "h \<notin> set (locator_from ?h' (Suc n))"
      using locator_from_below [of h h n] by auto
    ultimately show ?thesis
      using False by (subst locator_from.simps) simp
  qed
qed

lemma locator_from_last:
  assumes "0 \<le> h"
  shows "last (locator_from h n) = 0"
  using assms
proof (induction h n rule: locator_from.induct)
  case (1 h n)
  show ?case
  proof (cases "h \<le> 0")
    case True
    with "1.prems" show ?thesis
      by (subst locator_from.simps) simp
  next
    case False
    let ?h' = "max 0 (h - locator_step (Suc n))"
    from False have "last (locator_from ?h' (Suc n)) = 0"
      by (intro "1.IH") simp_all
    moreover have "locator_from ?h' (Suc n) \<noteq> []"
      by (subst locator_from.simps) simp
    ultimately show ?thesis
      using False by (subst locator_from.simps) simp
  qed
qed

lemma locator_from_hd: "hd (locator_from h n) = h"
  by (subst locator_from.simps) simp

lemma locator_from_nonempty: "locator_from h n \<noteq> []"
  by (subst locator_from.simps) simp

lemma count_list_distinct:
  assumes "distinct xs" and "x \<in> set xs"
  shows "count_list xs x = 1"
  using assms by (induction xs) (auto simp: count_list_0_iff)

text \<open>
  C3. For tip height 2000 the locator has the heights 2000, 1999, 1998, 1997, 1996,
  1994, 1990, 1982, 1966, 1934, 1870, 1742, 1486, 974, 0, and \<open>build\<close> returns the
  hashes at these heights in this order. For every tip height that is not negative,
  the sequence starts at the tip, ends at height 0, has no height twice (so height 0
  exactly once), and every height in it is at least 0 and at most the tip. The step
  to an entry is 1 for the first four steps and doubles from then on.
\<close>

theorem block_locator_heights:
  "locator_heights 2000 =
     [2000, 1999, 1998, 1997, 1996, 1994, 1990, 1982, 1966, 1934, 1870, 1742, 1486, 974, 0]
   \<and> build get_hash 2000 = map get_hash
     [2000, 1999, 1998, 1997, 1996, 1994, 1990, 1982, 1966, 1934, 1870, 1742, 1486, 974, 0]
   \<and> (0 \<le> tip_h \<longrightarrow>
        hd (locator_heights tip_h) = tip_h
        \<and> last (locator_heights tip_h) = 0
        \<and> distinct (locator_heights tip_h)
        \<and> count_list (locator_heights tip_h) 0 = 1
        \<and> (\<forall>h\<in>set (locator_heights tip_h). 0 \<le> h \<and> h \<le> tip_h))
   \<and> locator_step (Suc k) = (if 4 \<le> k then 2 * locator_step k else locator_step k)"
proof -
  have at_2000: "locator_heights 2000 =
      [2000, 1999, 1998, 1997, 1996, 1994, 1990, 1982, 1966, 1934, 1870, 1742, 1486, 974, 0]"
    unfolding locator_heights_def by code_simp
  have general: "hd (locator_heights tip_h) = tip_h
      \<and> last (locator_heights tip_h) = 0
      \<and> distinct (locator_heights tip_h)
      \<and> count_list (locator_heights tip_h) 0 = 1
      \<and> (\<forall>h\<in>set (locator_heights tip_h). 0 \<le> h \<and> h \<le> tip_h)"
    if tip: "0 \<le> tip_h"
  proof -
    from tip have last: "last (locator_heights tip_h) = 0"
      and distinct: "distinct (locator_heights tip_h)"
      by (simp_all add: locator_heights_def locator_from_last locator_from_distinct)
    have "last (locator_heights tip_h) \<in> set (locator_heights tip_h)"
      by (simp add: locator_heights_def locator_from_nonempty)
    with last have "0 \<in> set (locator_heights tip_h)"
      by simp
    with distinct have "count_list (locator_heights tip_h) 0 = 1"
      by (rule count_list_distinct)
    moreover from tip have "\<forall>h\<in>set (locator_heights tip_h). 0 \<le> h \<and> h \<le> tip_h"
      by (auto simp: locator_heights_def dest: locator_from_bounds)
    ultimately show ?thesis
      using last distinct by (simp add: locator_heights_def locator_from_hd)
  qed
  from at_2000 have "build get_hash 2000 = map get_hash
      [2000, 1999, 1998, 1997, 1996, 1994, 1990, 1982, 1966, 1934, 1870, 1742, 1486, 974, 0]"
    by (simp only: build_def)
  with at_2000 general locator_step_doubles [of k] show ?thesis
    by blast
qed

theorem block_locator_heights_witness:
  "locator_heights 7 = [7, 6, 5, 4, 3, 1, 0]
   \<and> distinct (locator_heights 7)
   \<and> count_list (locator_heights 7) 0 = 1
   \<and> last (locator_heights 7) = 0"
proof -
  have "locator_heights 7 = [7, 6, 5, 4, 3, 1, 0]"
    unfolding locator_heights_def by code_simp
  with block_locator_heights [of get_hash 7 0 for get_hash :: "int \<Rightarrow> unit"] show ?thesis
    by simp
qed

subsection \<open>HeaderCodec\<close>

text \<open>
  Modelled from the spec: \<^verbatim>\<open>HeaderCodec.encode\<close> and \<^verbatim>\<open>HeaderCodec.decode\<close> (section
  4.1), which are not under src/. A header has the fields the specification names
  (version, previous hash, merkle root, timestamp, difficulty bits, nonce); the
  record is 80 bytes, in the widths of the network's header serialization: four
  bytes for each integer field and 32 bytes for each hash. The specification leaves
  the byte order of the integer fields to the network protocol ("deterministic
  little/big-endian field layout"), so it is a parameter of the codec.
\<close>

unbundle bit_operations_syntax

datatype endian = Little | Big

record header_fields =
  version :: "32 word"
  prev_hash :: bytes
  merkle_root :: bytes
  timestamp :: "32 word"
  bits :: "32 word"
  nonce :: "32 word"

definition valid_header :: "header_fields \<Rightarrow> bool" where
  "valid_header h \<longleftrightarrow> length (prev_hash h) = 32 \<and> length (merkle_root h) = 32"

definition u32_to_le :: "32 word \<Rightarrow> bytes" where
  "u32_to_le w = [ucast w, ucast (drop_bit 8 w), ucast (drop_bit 16 w), ucast (drop_bit 24 w)]"

definition u32_of_le :: "bytes \<Rightarrow> 32 word" where
  "u32_of_le bs =
     (case bs of
        [b0, b1, b2, b3] \<Rightarrow>
          ucast b0 OR push_bit 8 (ucast b1) OR push_bit 16 (ucast b2) OR push_bit 24 (ucast b3)
      | _ \<Rightarrow> 0)"

definition encode_u32 :: "endian \<Rightarrow> 32 word \<Rightarrow> bytes" where
  "encode_u32 e w = (case e of Little \<Rightarrow> u32_to_le w | Big \<Rightarrow> rev (u32_to_le w))"

definition decode_u32 :: "endian \<Rightarrow> bytes \<Rightarrow> 32 word" where
  "decode_u32 e bs = (case e of Little \<Rightarrow> u32_of_le bs | Big \<Rightarrow> u32_of_le (rev bs))"

definition encode :: "endian \<Rightarrow> header_fields \<Rightarrow> bytes" where
  "encode e h =
     encode_u32 e (version h) @ prev_hash h @ merkle_root h
     @ encode_u32 e (timestamp h) @ encode_u32 e (bits h) @ encode_u32 e (nonce h)"

text \<open>
  Modelled from the spec: \<^verbatim>\<open>decode(bytes[80]) -> header_fields\<close> "fails with
  \<^verbatim>\<open>MalformedHeader\<close> if input length \<^verbatim>\<open>\<noteq>\<close> 80".
\<close>

definition decode :: "endian \<Rightarrow> bytes \<Rightarrow> store_error + header_fields" where
  "decode e bs =
     (if length bs \<noteq> 80 then Inl MalformedHeader
      else Inr \<lparr>version = decode_u32 e (take 4 bs),
                prev_hash = take 32 (drop 4 bs),
                merkle_root = take 32 (drop 36 bs),
                timestamp = decode_u32 e (take 4 (drop 68 bs)),
                bits = decode_u32 e (take 4 (drop 72 bs)),
                nonce = decode_u32 e (take 4 (drop 76 bs))\<rparr>)"

lemma u32_of_to_le: "u32_of_le (u32_to_le w) = w"
proof -
  have "ucast (ucast w :: byte) OR push_bit 8 (ucast (ucast (drop_bit 8 w) :: byte))
      OR push_bit 16 (ucast (ucast (drop_bit 16 w) :: byte))
      OR push_bit 24 (ucast (ucast (drop_bit 24 w) :: byte)) = w"
  proof (rule bit_word_eqI)
    fix n :: nat
    assume "n < LENGTH(32)"
    then consider "n < 8" | "8 \<le> n" "n < 16" | "16 \<le> n" "n < 24" | "24 \<le> n" "n < 32"
      by fastforce
    then show "bit (ucast (ucast w :: byte) OR push_bit 8 (ucast (ucast (drop_bit 8 w) :: byte))
        OR push_bit 16 (ucast (ucast (drop_bit 16 w) :: byte))
        OR push_bit 24 (ucast (ucast (drop_bit 24 w) :: byte)) :: 32 word) n = bit w n"
      by cases (auto simp: bit_simps)
  qed
  then show ?thesis
    by (simp add: u32_of_le_def u32_to_le_def)
qed

lemma byte_from_u32:
  fixes b0 b1 b2 b3 :: byte
  defines "w \<equiv> ucast b0 OR push_bit 8 (ucast b1) OR push_bit 16 (ucast b2)
        OR push_bit 24 (ucast b3) :: 32 word"
  shows "ucast w = b0" and "ucast (drop_bit 8 w) = b1"
    and "ucast (drop_bit 16 w) = b2" and "ucast (drop_bit 24 w) = b3"
  unfolding w_def
  by (rule bit_word_eqI; auto simp: bit_simps dest: bit_imp_le_length)+

lemma u32_to_of_le:
  assumes "length bs = 4"
  shows "u32_to_le (u32_of_le bs) = bs"
proof -
  from assms obtain b0 b1 b2 b3 where bs: "bs = [b0, b1, b2, b3]"
    by (auto simp: length_Suc_conv numeral_eq_Suc)
  then have "u32_of_le bs = ucast b0 OR push_bit 8 (ucast b1) OR push_bit 16 (ucast b2)
      OR push_bit 24 (ucast b3)"
    by (simp add: u32_of_le_def)
  then show ?thesis
    by (simp only: u32_to_le_def byte_from_u32 bs)
qed

lemma length_encode_u32 [simp]: "length (encode_u32 e w) = 4"
  by (cases e) (simp_all add: encode_u32_def u32_to_le_def)

lemma decode_encode_u32: "decode_u32 e (encode_u32 e w) = w"
  by (cases e) (simp_all add: decode_u32_def encode_u32_def u32_of_to_le)

lemma encode_decode_u32:
  assumes "length bs = 4"
  shows "encode_u32 e (decode_u32 e bs) = bs"
  using assms by (cases e) (simp_all add: decode_u32_def encode_u32_def u32_to_of_le)

lemma length_encode:
  assumes "valid_header h"
  shows "length (encode e h) = 80"
  using assms by (simp add: encode_def valid_header_def)

lemma decode_encode:
  assumes "valid_header h"
  shows "decode e (encode e h) = Inr h"
proof -
  from assms have p: "length (prev_hash h) = 32" and m: "length (merkle_root h) = 32"
    by (simp_all add: valid_header_def)
  from assms have "length (encode e h) = 80"
    by (rule length_encode)
  then have "decode e (encode e h) =
      Inr \<lparr>version = decode_u32 e (take 4 (encode e h)),
           prev_hash = take 32 (drop 4 (encode e h)),
           merkle_root = take 32 (drop 36 (encode e h)),
           timestamp = decode_u32 e (take 4 (drop 68 (encode e h))),
           bits = decode_u32 e (take 4 (drop 72 (encode e h))),
           nonce = decode_u32 e (take 4 (drop 76 (encode e h)))\<rparr>"
    by (simp add: decode_def)
  also have "\<dots> = Inr \<lparr>version = version h, prev_hash = prev_hash h,
      merkle_root = merkle_root h, timestamp = timestamp h, bits = bits h, nonce = nonce h\<rparr>"
    by (simp add: encode_def p m decode_encode_u32)
  finally show ?thesis
    by simp
qed

lemma take_drop_chain: "take n (drop k xs) @ drop (k + n) xs = drop k xs"
  by (metis add.commute append_take_drop_id drop_drop)

lemma encode_decode:
  assumes "length bs = 80"
  shows "\<exists>h. decode e bs = Inr h \<and> valid_header h \<and> encode e h = bs"
proof -
  let ?h = "\<lparr>version = decode_u32 e (take 4 bs),
             prev_hash = take 32 (drop 4 bs),
             merkle_root = take 32 (drop 36 bs),
             timestamp = decode_u32 e (take 4 (drop 68 bs)),
             bits = decode_u32 e (take 4 (drop 72 bs)),
             nonce = decode_u32 e (take 4 (drop 76 bs))\<rparr>"
  from assms have dec: "decode e bs = Inr ?h"
    by (simp add: decode_def)
  from assms have valid: "valid_header ?h"
    by (simp add: valid_header_def)
  from assms have "encode e ?h =
      take 4 (drop 0 bs) @ take 32 (drop 4 bs) @ take 32 (drop 36 bs)
      @ take 4 (drop 68 bs) @ take 4 (drop 72 bs) @ take 4 (drop 76 bs)"
    by (simp add: encode_def encode_decode_u32)
  also from assms have "\<dots> =
      take 4 (drop 0 bs) @ take 32 (drop 4 bs) @ take 32 (drop 36 bs)
      @ take 4 (drop 68 bs) @ take 4 (drop 72 bs) @ take 4 (drop 76 bs) @ drop 80 bs"
    by simp
  also have "\<dots> = take 4 (drop 0 bs) @ take 32 (drop 4 bs) @ take 32 (drop 36 bs)
      @ take 4 (drop 68 bs) @ take 4 (drop 72 bs) @ drop 76 bs"
    using take_drop_chain [of 4 76 bs] by simp
  also have "\<dots> = take 4 (drop 0 bs) @ take 32 (drop 4 bs) @ take 32 (drop 36 bs)
      @ take 4 (drop 68 bs) @ drop 72 bs"
    using take_drop_chain [of 4 72 bs] by simp
  also have "\<dots> = take 4 (drop 0 bs) @ take 32 (drop 4 bs) @ take 32 (drop 36 bs) @ drop 68 bs"
    using take_drop_chain [of 4 68 bs] by simp
  also have "\<dots> = take 4 (drop 0 bs) @ take 32 (drop 4 bs) @ drop 36 bs"
    using take_drop_chain [of 32 36 bs] by simp
  also have "\<dots> = take 4 (drop 0 bs) @ drop 4 bs"
    using take_drop_chain [of 32 4 bs] by simp
  also have "\<dots> = bs"
    by simp
  finally have "encode e ?h = bs" .
  with dec valid show ?thesis
    by blast
qed

text \<open>
  C6. For either byte order, decoding the encoding of a valid header (both hashes
  32 bytes long) gives the header back, and its encoding has 80 bytes. Read on byte
  sequences: every sequence of 80 bytes decodes to a valid header whose encoding is
  the sequence itself, and a sequence of any other length is refused with
  \<open>MalformedHeader\<close>.
\<close>

theorem decode_encode_roundtrip:
  "(valid_header h \<longrightarrow> length (encode e h) = 80 \<and> decode e (encode e h) = Inr h)
   \<and> (length bs = 80 \<longrightarrow> (\<exists>h'. decode e bs = Inr h' \<and> valid_header h' \<and> encode e h' = bs))
   \<and> (length bs \<noteq> 80 \<longrightarrow> decode e bs = Inl MalformedHeader)"
proof -
  have "decode e bs = Inl MalformedHeader" if "length bs \<noteq> 80"
    using that by (simp add: decode_def)
  with length_encode [of h e] decode_encode [of h e] encode_decode [of bs e] show ?thesis
    by blast
qed

theorem decode_encode_roundtrip_witness:
  "decode Little (encode Little
      \<lparr>version = 536870912, prev_hash = replicate 32 1, merkle_root = replicate 32 2,
       timestamp = 1700000000, bits = 0x1E0FFFF0, nonce = 42\<rparr>)
     = Inr \<lparr>version = 536870912, prev_hash = replicate 32 1, merkle_root = replicate 32 2,
            timestamp = 1700000000, bits = 0x1E0FFFF0, nonce = 42\<rparr>
   \<and> take 4 (encode Little
      \<lparr>version = 536870912, prev_hash = replicate 32 1, merkle_root = replicate 32 2,
       timestamp = 1700000000, bits = 0x1E0FFFF0, nonce = 42\<rparr>) = [0, 0, 0, 0x20]
   \<and> decode Big (replicate 79 0) = Inl MalformedHeader"
proof -
  let ?h = "\<lparr>version = 536870912, prev_hash = replicate 32 1, merkle_root = replicate 32 2,
       timestamp = 1700000000, bits = 0x1E0FFFF0, nonce = 42\<rparr>"
  have "valid_header ?h"
    by (simp add: valid_header_def)
  moreover have "take 4 (encode Little ?h) = [0, 0, 0, 0x20]"
    by (simp add: encode_def encode_u32_def u32_to_le_def drop_bit_eq_div)
  moreover have "length (replicate 79 (0::byte)) \<noteq> 80"
    by simp
  ultimately show ?thesis
    using decode_encode_roundtrip [of ?h Little "replicate 79 0"]
      decode_encode_roundtrip [of ?h Big "replicate 79 0"]
    by simp
qed

end
